theory Spec2Isabelle
  imports Complex_Main
begin

section \<open>The room-sublist layout engine (src/resizer/distributors/roomsublist2.js)\<close>

text \<open>
  A shallow embedding of \<^verbatim>\<open>Layout\<close> and \<^verbatim>\<open>Handle\<close>. The object
  \<^verbatim>\<open>this\<close> is a record that every method takes and returns; a method that can
  throw returns a sum whose left side carries the error together with the layout as the
  throw leaves it. The two recursive methods are partial functions into \<open>option\<close>, so that
  their termination is a theorem and not an assumption of the model. The source's names are
  kept, without the leading underscore of the private members.
\<close>

subsection \<open>JavaScript values: numbers and \<^verbatim>\<open>undefined\<close>\<close>

text \<open>
  A finite double is modelled by the rational it denotes and arithmetic on finite numbers is
  exact: rounding, overflow to infinity and the sign of zero are not modelled. The two
  infinities, NaN and \<^verbatim>\<open>undefined\<close> are values of their own, with the results
  that ECMAScript gives them.
\<close>

datatype jsval = Num rat | PInf | NInf | NaN | Undefined

fun js_neg :: "jsval \<Rightarrow> jsval" where
  "js_neg (Num a) = Num (- a)"
| "js_neg PInf = NInf"
| "js_neg NInf = PInf"
| "js_neg NaN = NaN"
| "js_neg Undefined = NaN"

fun js_add :: "jsval \<Rightarrow> jsval \<Rightarrow> jsval" where
  "js_add (Num a) (Num b) = Num (a + b)"
| "js_add (Num a) PInf = PInf"
| "js_add (Num a) NInf = NInf"
| "js_add PInf (Num b) = PInf"
| "js_add PInf PInf = PInf"
| "js_add NInf (Num b) = NInf"
| "js_add NInf NInf = NInf"
| "js_add _ _ = NaN"

definition js_sub :: "jsval \<Rightarrow> jsval \<Rightarrow> jsval" where
  "js_sub a b = js_add a (js_neg b)"

text \<open>Division by the length of an array, the only divisor of the source.\<close>

fun js_div :: "jsval \<Rightarrow> nat \<Rightarrow> jsval" where
  "js_div (Num a) n =
     (if n = 0 then (if a = 0 then NaN else if 0 < a then PInf else NInf)
      else Num (a / of_nat n))"
| "js_div PInf n = PInf"
| "js_div NInf n = NInf"
| "js_div NaN n = NaN"
| "js_div Undefined n = NaN"

fun js_lt :: "jsval \<Rightarrow> jsval \<Rightarrow> bool" where
  "js_lt (Num a) (Num b) = (a < b)"
| "js_lt (Num a) PInf = True"
| "js_lt NInf (Num b) = True"
| "js_lt NInf PInf = True"
| "js_lt _ _ = False"

definition js_gt :: "jsval \<Rightarrow> jsval \<Rightarrow> bool" where
  "js_gt a b = js_lt b a"

fun js_abs :: "jsval \<Rightarrow> jsval" where
  "js_abs (Num a) = Num \<bar>a\<bar>"
| "js_abs PInf = PInf"
| "js_abs NInf = PInf"
| "js_abs NaN = NaN"
| "js_abs Undefined = NaN"

text \<open>
  \<^verbatim>\<open>==\<close> and \<^verbatim>\<open>===\<close> agree on numbers and \<^verbatim>\<open>undefined\<close>:
  NaN equals nothing, \<^verbatim>\<open>undefined\<close> equals only itself.
\<close>

fun js_eq :: "jsval \<Rightarrow> jsval \<Rightarrow> bool" where
  "js_eq (Num a) (Num b) = (a = b)"
| "js_eq PInf PInf = True"
| "js_eq NInf NInf = True"
| "js_eq Undefined Undefined = True"
| "js_eq _ _ = False"

fun truthy :: "jsval \<Rightarrow> bool" where
  "truthy (Num a) = (a \<noteq> 0)"
| "truthy PInf = True"
| "truthy NInf = True"
| "truthy NaN = False"
| "truthy Undefined = False"

fun isFinite :: "jsval \<Rightarrow> bool" where
  "isFinite (Num a) = True"
| "isFinite _ = False"

text \<open>Reading and writing an array element: a read out of range is
  \<^verbatim>\<open>undefined\<close>, a write past the end extends the array.\<close>

definition js_nth :: "jsval list \<Rightarrow> nat \<Rightarrow> jsval" where
  "js_nth xs i = (if i < length xs then xs ! i else Undefined)"

definition js_set :: "jsval list \<Rightarrow> nat \<Rightarrow> jsval \<Rightarrow> jsval list" where
  "js_set xs i v =
     (if i < length xs then xs[i := v]
      else xs @ replicate (i - length xs) Undefined @ [v])"

text \<open>Reading a property of an object used as a dictionary.\<close>

definition js_get :: "(string \<rightharpoonup> jsval) \<Rightarrow> string \<Rightarrow> jsval" where
  "js_get m k = (case m k of None \<Rightarrow> Undefined | Some v \<Rightarrow> v)"

subsection \<open>The layout\<close>

definition handleHeight :: rat where
  "handleHeight = 1"

definition clamp :: "jsval \<Rightarrow> jsval \<Rightarrow> jsval \<Rightarrow> jsval" where
  "clamp height mn mx =
     (if js_gt height mx then mx
      else if js_lt height mn then mn
      else height)"

record roomSection =
  sec_id :: string
  sec_count :: nat

datatype error = TypeError

text \<open>
  \<open>collapsedState\<close> keeps the truthiness of the stored flag, the only thing the code
  reads of it. \<open>applied\<close> is the trace of the calls of the \<^verbatim>\<open>applyHeight\<close>
  callback that the constructor receives.
\<close>

record layout =
  sections :: "roomSection list"
  collapsedState :: "string \<rightharpoonup> bool"
  availableHeight :: jsval
  sectionHeights :: "string \<rightharpoonup> jsval"
  heights :: "jsval list"
  applied :: "(string \<times> jsval) list"

type_synonym 'a result = "(error \<times> layout) + ('a \<times> layout)"

definition newLayout :: "(string \<rightharpoonup> jsval) \<Rightarrow> (string \<rightharpoonup> bool) \<Rightarrow> layout" where
  "newLayout initialSizes collapsed =
     \<lparr> sections = [], collapsedState = collapsed, availableHeight = Num 0,
       sectionHeights = initialSizes, heights = [], applied = [] \<rparr>"

definition isCollapsed :: "layout \<Rightarrow> string \<Rightarrow> bool" where
  "isCollapsed L k = (collapsedState L k = Some True)"

definition getAvailableHeight :: "layout \<Rightarrow> jsval" where
  "getAvailableHeight L =
     (let nonCollapsedSectionCount =
            foldl (\<lambda>count s. count + (if isCollapsed L (sec_id s) then 0 else 1))
              (0::int) (sections L)
      in js_sub (availableHeight L)
           (Num (of_int (nonCollapsedSectionCount - 1) * handleHeight)))"

fun findIndex :: "('a \<Rightarrow> bool) \<Rightarrow> 'a list \<Rightarrow> int" where
  "findIndex P [] = - 1"
| "findIndex P (x # xs) =
     (if P x then 0
      else (let r = findIndex P xs in if r < 0 then - 1 else r + 1))"

definition getSectionIndex :: "layout \<Rightarrow> string \<Rightarrow> int" where
  "getSectionIndex L k = findIndex (\<lambda>s. sec_id s = k) (sections L)"

definition sectionHeight :: "nat \<Rightarrow> jsval" where
  "sectionHeight n = Num (36 + (if n = 0 then 0 else 4 + of_nat n * 34))"

text \<open>\<^verbatim>\<open>this._sections[i]\<close> is \<^verbatim>\<open>undefined\<close> out of range, and reading
  its \<^verbatim>\<open>id\<close> throws.\<close>

definition getMaxHeight :: "layout \<Rightarrow> int \<Rightarrow> error + jsval" where
  "getMaxHeight L i =
     (if 0 \<le> i \<and> i < int (length (sections L)) then
        (let s = sections L ! nat i in
         if isCollapsed L (sec_id s) then Inr (sectionHeight 0)
         else Inr (Num 100000))
      else Inl TypeError)"

definition getMinHeight :: "layout \<Rightarrow> int \<Rightarrow> error + jsval" where
  "getMinHeight L i =
     (if 0 \<le> i \<and> i < int (length (sections L)) then
        (let s = sections L ! nat i;
             maxItems = (if isCollapsed L (sec_id s) then 0 else 1)
         in Inr (sectionHeight (min (sec_count s) maxItems)))
      else Inl TypeError)"

text \<open>\<^verbatim>\<open>_applyOverflow\<close>, in parts. \<open>applyOverflow_step\<close> is one turn of
  its \<^verbatim>\<open>for\<close> loop up to the assignment of the new height,
  \<open>applyOverflow_loop\<close> the loop over the sections still to visit, with the
  \<^verbatim>\<open>break\<close> of the mode that does not blend; \<open>ops\<close> is
  \<^verbatim>\<open>overflowPerSection\<close>.\<close>

definition applyOverflow_step ::
  "nat \<Rightarrow> jsval \<Rightarrow> jsval \<Rightarrow> nat list \<Rightarrow> layout
     \<Rightarrow> (jsval \<times> nat list) result" where
  "applyOverflow_step i overflow ops unclampedSections L =
     (case getMinHeight L (int i) of
        Inl e \<Rightarrow> Inl (e, L)
      | Inr mn \<Rightarrow>
     (case getMaxHeight L (int i) of
        Inl e \<Rightarrow> Inl (e, L)
      | Inr mx \<Rightarrow>
        (let h = js_nth (heights L) i;
             newHeight = clamp (js_sub h ops) mn mx;
             unclamped' = (if js_eq newHeight (js_sub h ops)
                           then unclampedSections @ [i] else unclampedSections);
             overflow' = js_sub overflow (js_sub h newHeight);
             L' = L\<lparr>heights := js_set (heights L) i newHeight\<rparr>
         in Inr ((overflow', unclamped'), L'))))"

fun applyOverflow_loop ::
  "bool \<Rightarrow> nat list \<Rightarrow> jsval \<Rightarrow> jsval \<Rightarrow> nat list \<Rightarrow> layout
     \<Rightarrow> (jsval \<times> nat list) result" where
  "applyOverflow_loop blend [] overflow ops unclampedSections L =
     Inr ((overflow, unclampedSections), L)"
| "applyOverflow_loop blend (i # rest) overflow ops unclampedSections L =
     (case applyOverflow_step i overflow ops unclampedSections L of
        Inl e \<Rightarrow> Inl e
      | Inr ((overflow', unclamped'), L') \<Rightarrow>
          if \<not> blend then
            (if js_lt (js_abs overflow') (Num 1) then Inr ((overflow', unclamped'), L')
             else applyOverflow_loop blend rest overflow' overflow' unclamped' L')
          else applyOverflow_loop blend rest overflow' ops unclamped' L')"

partial_function (option) applyOverflow ::
  "jsval \<Rightarrow> nat list \<Rightarrow> bool \<Rightarrow> layout \<Rightarrow> (jsval result) option" where
  "applyOverflow overflow secs blend L =
     (let overflowPerSection = (if blend then js_div overflow (length secs) else overflow) in
      case applyOverflow_loop blend secs overflow overflowPerSection [] L of
        Inl e \<Rightarrow> Some (Inl e)
      | Inr ((overflow', unclampedSections), L') \<Rightarrow>
          if js_gt (js_abs overflow') (Num 1) \<and> 0 < length unclampedSections
          then applyOverflow overflow' unclampedSections blend L'
          else Some (Inr (overflow', L')))"

text \<open>Both rebalancing methods call \<^verbatim>\<open>_applyOverflow\<close> without its third
  argument, which is then falsy.\<close>

definition rebalanceAbove :: "nat \<Rightarrow> jsval \<Rightarrow> layout \<Rightarrow> (jsval result) option" where
  "rebalanceAbove anchor overflowAbove L =
     (if js_gt (js_abs overflowAbove) (Num 1)
      then applyOverflow overflowAbove (rev [0..<anchor]) False L
      else Some (Inr (overflowAbove, L)))"

definition rebalanceBelow :: "nat \<Rightarrow> jsval \<Rightarrow> layout \<Rightarrow> (jsval result) option" where
  "rebalanceBelow anchor overflowBelow L =
     (if js_gt (js_abs overflowBelow) (Num 1)
      then applyOverflow overflowBelow [anchor + 1..<length (sections L)] False L
      else Some (Inr (overflowBelow, L)))"

definition committedHeights :: "layout \<Rightarrow> jsval list" where
  "committedHeights L = map (\<lambda>s. js_get (sectionHeights L) (sec_id s)) (sections L)"

definition applyHeights :: "layout \<Rightarrow> layout" where
  "applyHeights L =
     L\<lparr>applied := applied L @
          map (\<lambda>i. (sec_id (sections L ! i), js_nth (heights L) i)) [0..<length (sections L)]\<rparr>"

definition commitHeights :: "layout \<Rightarrow> layout" where
  "commitHeights L =
     L\<lparr>sectionHeights :=
          foldl (\<lambda>m (i, s). m(sec_id s \<mapsto> js_nth (heights L) i))
            (sectionHeights L) (List.enumerate 0 (sections L))\<rparr>"

text \<open>\<^verbatim>\<open>_relayout\<close>, in parts. \<open>anchorOverflowAbove\<close> is the choice of
  \<^verbatim>\<open>overflowAbove\<close> by the three branches on the anchor's new height,
  \<open>rebalanceBoth\<close> the two rebalancing calls in their order, \<open>relayout_pass\<close> the
  body up to them, which returns what is left of both overflows, and \<open>relayout\<close> the
  whole method, with its re-run on a clamped drag. Its callers always pass the anchor and a
  number as offset, so the default values of the parameters are never taken.\<close>

definition anchorOverflowAbove :: "jsval \<Rightarrow> jsval \<Rightarrow> jsval \<Rightarrow> jsval \<Rightarrow> jsval" where
  "anchorOverflowAbove h offset minHeight maxHeight =
     (if js_gt (js_add h offset) maxHeight then js_sub (js_sub maxHeight h) offset
      else if js_lt (js_add h offset) minHeight then js_sub (js_sub minHeight h) offset
      else Num 0)"

definition rebalanceBoth ::
  "nat \<Rightarrow> jsval \<Rightarrow> jsval \<Rightarrow> layout \<Rightarrow> ((jsval \<times> jsval) result) option" where
  "rebalanceBoth a overflowAbove overflowBelow L =
     (case rebalanceAbove a overflowAbove L of
        None \<Rightarrow> None
      | Some (Inl e) \<Rightarrow> Some (Inl e)
      | Some (Inr (overflowAbove', L3)) \<Rightarrow>
         (case rebalanceBelow a overflowBelow L3 of
            None \<Rightarrow> None
          | Some (Inl e) \<Rightarrow> Some (Inl e)
          | Some (Inr (overflowBelow', L4)) \<Rightarrow>
              Some (Inr ((overflowAbove', overflowBelow'), L4))))"

definition relayout_pass :: "layout \<Rightarrow> int \<Rightarrow> jsval \<Rightarrow> ((jsval \<times> jsval) result) option" where
  "relayout_pass L anchor offset =
     (let L1 = L\<lparr>heights := committedHeights L\<rparr> in
      case getMaxHeight L1 anchor of
        Inl e \<Rightarrow> Some (Inl (e, L1))
      | Inr maxHeight \<Rightarrow>
     (case getMinHeight L1 anchor of
        Inl e \<Rightarrow> Some (Inl (e, L1))
      | Inr minHeight \<Rightarrow>
        (let a = nat anchor;
             h = js_nth (heights L1) a;
             overflowAbove = anchorOverflowAbove h offset minHeight maxHeight;
             overflowBelow = offset;
             L2 = L1\<lparr>heights := js_set (heights L1) a (clamp (js_add h offset) minHeight maxHeight)\<rparr>
         in rebalanceBoth a overflowAbove overflowBelow L2)))"

partial_function (option) relayout ::
  "layout \<Rightarrow> int \<Rightarrow> jsval \<Rightarrow> bool \<Rightarrow> (jsval result) option" where
  "relayout L anchor offset clamped =
     (case relayout_pass L anchor offset of
        None \<Rightarrow> None
      | Some (Inl e) \<Rightarrow> Some (Inl e)
      | Some (Inr ((overflowAbove, overflowBelow), L4)) \<Rightarrow>
          if \<not> clamped \<and> js_gt (js_abs overflowAbove) (Num 1) then
            Option.bind (relayout L4 anchor (js_add offset overflowAbove) True) (\<lambda>r.
              case r of
                Inl e \<Rightarrow> Some (Inl e)
              | Inr (_, L5) \<Rightarrow> Some (Inr (js_add offset overflowAbove, L5)))
          else if \<not> clamped \<and> js_gt (js_abs overflowBelow) (Num 1) then
            Option.bind (relayout L4 anchor (js_sub offset overflowBelow) True) (\<lambda>r.
              case r of
                Inl e \<Rightarrow> Some (Inl e)
              | Inr (_, L5) \<Rightarrow> Some (Inr (js_sub offset overflowBelow, L5)))
          else Some (Inr (Undefined, applyHeights L4)))"

definition applyNewSize :: "layout \<Rightarrow> (unit result) option" where
  "applyNewSize L =
     (let newHeight = getAvailableHeight L;
          currHeight = foldl (\<lambda>sum s. js_add sum (js_get (sectionHeights L) (sec_id s)))
                         (Num 0) (sections L);
          offset = js_sub newHeight currHeight;
          L1 = L\<lparr>heights := committedHeights L\<rparr>;
          secs = [0..<length (sections L)]
      in case applyOverflow (js_neg offset) secs True L1 of
           None \<Rightarrow> None
         | Some (Inl e) \<Rightarrow> Some (Inl e)
         | Some (Inr (_, L2)) \<Rightarrow> Some (Inr ((), commitHeights (applyHeights L2))))"

definition setAvailableHeight :: "jsval \<Rightarrow> layout \<Rightarrow> (unit result) option" where
  "setAvailableHeight newSize L = applyNewSize (L\<lparr>availableHeight := newSize\<rparr>)"

definition collapseSection :: "string \<Rightarrow> layout \<Rightarrow> (unit result) option" where
  "collapseSection k L = applyNewSize (L\<lparr>collapsedState := (collapsedState L)(k \<mapsto> True)\<rparr>)"

text \<open>The \<^verbatim>\<open>forEach\<close> of \<^verbatim>\<open>update\<close> that seeds the sections without a
  stored height.\<close>

fun seedHeights :: "jsval \<Rightarrow> (nat \<times> roomSection) list \<Rightarrow> layout \<Rightarrow> (error \<times> layout) + layout" where
  "seedHeights totalHeight [] L = Inr L"
| "seedHeights totalHeight ((i, s) # rest) L =
     (if \<not> truthy (js_get (sectionHeights L) (sec_id s)) then
        (case getMinHeight L (int i) of
           Inl e \<Rightarrow> Inl (e, L)
         | Inr mn \<Rightarrow>
        (case getMaxHeight L (int i) of
           Inl e \<Rightarrow> Inl (e, L)
         | Inr mx \<Rightarrow>
             seedHeights totalHeight rest
               (L\<lparr>sectionHeights := (sectionHeights L)
                    (sec_id s \<mapsto> clamp (js_div totalHeight (length (sections L))) mn mx)\<rparr>)))
      else seedHeights totalHeight rest L)"

definition sectionsChanged :: "roomSection list \<Rightarrow> roomSection list \<Rightarrow> bool" where
  "sectionsChanged secs old =
     (length secs \<noteq> length old
      \<or> list_ex (\<lambda>(a, b). sec_id a \<noteq> sec_id b \<or> sec_count a \<noteq> sec_count b) (zip secs old))"

definition update :: "roomSection list \<Rightarrow> jsval \<Rightarrow> layout \<Rightarrow> (unit result) option" where
  "update secs newAvailableHeight L =
     (let heightChanged = (isFinite newAvailableHeight
                            \<and> \<not> js_eq newAvailableHeight (availableHeight L));
          L1 = (if heightChanged then L\<lparr>availableHeight := newAvailableHeight\<rparr> else L)
      in if \<not> heightChanged \<and> \<not> sectionsChanged secs (sections L1) then Some (Inr ((), L1))
         else (let L2 = L1\<lparr>sections := secs\<rparr>;
                   totalHeight = getAvailableHeight L2
               in case seedHeights totalHeight (List.enumerate 0 (sections L2)) L2 of
                    Inl e \<Rightarrow> Some (Inl e)
                  | Inr L3 \<Rightarrow> applyNewSize L3))"

subsection \<open>The handle\<close>

text \<open>A handle refers to its layout; here the layout is the state that its methods take.\<close>

record handle =
  anchor :: int
  initialHeight :: jsval

definition openHandle :: "layout \<Rightarrow> string \<Rightarrow> handle" where
  "openHandle L k = \<lparr> anchor = getSectionIndex L k, initialHeight = js_get (sectionHeights L) k \<rparr>"

definition setHeight :: "handle \<Rightarrow> jsval \<Rightarrow> layout \<Rightarrow> (handle result) option" where
  "setHeight hdl height L =
     (case relayout L (anchor hdl) (js_sub height (initialHeight hdl)) False of
        None \<Rightarrow> None
      | Some (Inl e) \<Rightarrow> Some (Inl e)
      | Some (Inr (_, L')) \<Rightarrow> Some (Inr (hdl, L')))"

definition finish :: "handle \<Rightarrow> layout \<Rightarrow> handle \<times> layout" where
  "finish hdl L = (hdl, commitHeights L)"

definition expandSection :: "string \<Rightarrow> jsval \<Rightarrow> layout \<Rightarrow> (unit result) option" where
  "expandSection k height L =
     (case applyNewSize (L\<lparr>collapsedState := (collapsedState L)(k \<mapsto> False)\<rparr>) of
        None \<Rightarrow> None
      | Some (Inl e) \<Rightarrow> Some (Inl e)
      | Some (Inr (_, L1)) \<Rightarrow>
         (case setHeight (openHandle L1 k) height L1 of
            None \<Rightarrow> None
          | Some (Inl e) \<Rightarrow> Some (Inl e)
          | Some (Inr (hdl, L2)) \<Rightarrow> Some (Inr ((), snd (finish hdl L2)))))"

declare applyOverflow.simps [code]
declare relayout.simps [code]

subsection \<open>Notions used to state the properties\<close>

text \<open>The layout that a call leaves behind, whether it returned or threw.\<close>

fun state_of :: "'a result \<Rightarrow> layout" where
  "state_of (Inl (e, L)) = L"
| "state_of (Inr (x, L)) = L"

fun returned :: "'a result \<Rightarrow> bool" where
  "returned (Inl e) = False"
| "returned (Inr x) = True"

text \<open>What a call may change: \<open>onlyHeightsChanged L L'\<close> when \<open>L'\<close> differs from
  \<open>L\<close> at most in the in-progress heights, \<open>committedUnchanged L L'\<close> when it differs
  at most in the in-progress heights and the trace of the callback.\<close>

definition onlyHeightsChanged :: "layout \<Rightarrow> layout \<Rightarrow> bool" where
  "onlyHeightsChanged L L' =
     (sections L' = sections L \<and> collapsedState L' = collapsedState L
      \<and> availableHeight L' = availableHeight L \<and> sectionHeights L' = sectionHeights L
      \<and> applied L' = applied L)"

definition committedUnchanged :: "layout \<Rightarrow> layout \<Rightarrow> bool" where
  "committedUnchanged L L' =
     (sections L' = sections L \<and> collapsedState L' = collapsedState L
      \<and> availableHeight L' = availableHeight L \<and> sectionHeights L' = sectionHeights L)"

text \<open>The bounds of a section in the words of the specification, as rational numbers:
  \<^verbatim>\<open>sectionHeight(n) = 36 + (n == 0 ? 0 : 4 + n * 34)\<close>, the minimum
  \<^verbatim>\<open>sectionHeight(min(count, collapsed ? 0 : 1))\<close> and the maximum
  \<^verbatim>\<open>sectionHeight(0)\<close> when collapsed and 100000 otherwise. They are compared
  with \<open>getMinHeight\<close> and \<open>getMaxHeight\<close> below.\<close>

definition spec_sectionHeight :: "nat \<Rightarrow> rat" where
  "spec_sectionHeight n = 36 + (if n = 0 then 0 else 4 + of_nat n * 34)"

definition spec_minHeight :: "layout \<Rightarrow> nat \<Rightarrow> rat" where
  "spec_minHeight L i =
     spec_sectionHeight (min (sec_count (sections L ! i))
       (if isCollapsed L (sec_id (sections L ! i)) then 0 else 1))"

definition spec_maxHeight :: "layout \<Rightarrow> nat \<Rightarrow> rat" where
  "spec_maxHeight L i =
     (if isCollapsed L (sec_id (sections L ! i)) then spec_sectionHeight 0 else 100000)"

text \<open>A change of the layout that a result carries, and the layout with calls of the
  callback put before its trace.\<close>

fun with_state :: "(layout \<Rightarrow> layout) \<Rightarrow> 'a result \<Rightarrow> 'a result" where
  "with_state f (Inl (e, L)) = Inl (e, f L)"
| "with_state f (Inr (x, L)) = Inr (x, f L)"

definition earlier_calls :: "(string \<times> jsval) list \<Rightarrow> layout \<Rightarrow> layout" where
  "earlier_calls p L = L\<lparr>applied := p @ applied L\<rparr>"

text \<open>\<^verbatim>\<open>setHeight\<close> called \<open>n\<close> times in a row with the same height, each call
  on the handle that the one before returned.\<close>

fun setHeight_times :: "nat \<Rightarrow> handle \<Rightarrow> jsval \<Rightarrow> layout \<Rightarrow> (handle result) option" where
  "setHeight_times 0 hdl height L = Some (Inr (hdl, L))"
| "setHeight_times (Suc n) hdl height L =
     (case setHeight hdl height L of
        None \<Rightarrow> None
      | Some (Inl e) \<Rightarrow> Some (Inl e)
      | Some (Inr (hdl', L')) \<Rightarrow> setHeight_times n hdl' height L')"

subsection \<open>The loop on finite heights\<close>

text \<open>When every number at hand is finite, \<open>applyOverflow_loop\<close> computes on rationals.
  \<open>finite_loop\<close> is that computation, on the list of heights alone and with the bounds
  as parameters; the lemma \<open>loop_finite\<close> below states that the loop agrees with it.\<close>

definition clampR :: "rat \<Rightarrow> rat \<Rightarrow> rat \<Rightarrow> rat" where
  "clampR x lo hi = (if hi < x then hi else if x < lo then lo else x)"

fun finite_loop ::
  "bool \<Rightarrow> (nat \<Rightarrow> rat) \<Rightarrow> (nat \<Rightarrow> rat) \<Rightarrow> nat list \<Rightarrow> rat \<Rightarrow> rat \<Rightarrow> nat list \<Rightarrow> rat list
     \<Rightarrow> (rat \<times> nat list) \<times> rat list" where
  "finite_loop blend lo hi [] ov q uncl hs = ((ov, uncl), hs)"
| "finite_loop blend lo hi (i # rest) ov q uncl hs =
     (let c = clampR (hs ! i - q) (lo i) (hi i);
          uncl1 = (if c = hs ! i - q then uncl @ [i] else uncl);
          ov1 = ov - (hs ! i - c);
          hs1 = hs[i := c]
      in if \<not> blend then
           (if \<bar>ov1\<bar> < 1 then ((ov1, uncl1), hs1)
            else finite_loop blend lo hi rest ov1 ov1 uncl1 hs1)
         else finite_loop blend lo hi rest ov1 q uncl1 hs1)"

subsection \<open>Layouts in good order and the operations on them\<close>

text \<open>\<open>boundsOK L vs\<close>: the list \<open>vs\<close> has one finite height for every section, within
  the bounds of that section. A layout is in good order when its section ids are distinct,
  its available height is finite, and both the committed and the in-progress heights of its
  sections are within bounds.\<close>

definition boundsOK :: "layout \<Rightarrow> jsval list \<Rightarrow> bool" where
  "boundsOK L vs =
     (length vs = length (sections L)
      \<and> list_all (\<lambda>i. case vs ! i of
                         Num h \<Rightarrow> spec_minHeight L i \<le> h \<and> h \<le> spec_maxHeight L i
                       | _ \<Rightarrow> False) [0..<length vs])"

definition layoutInv :: "layout \<Rightarrow> bool" where
  "layoutInv L =
     (distinct (map sec_id (sections L)) \<and> isFinite (availableHeight L)
      \<and> boundsOK L (committedHeights L) \<and> boundsOK L (heights L))"

text \<open>The operations of the public interface: the four methods of the layout and the two
  of a handle, which may be any handle that was opened at some time.\<close>

datatype operation =
    Update "roomSection list" jsval
  | SetAvailableHeight jsval
  | CollapseSection string
  | ExpandSection string jsval
  | SetHeight handle jsval
  | Finish handle

fun perform :: "operation \<Rightarrow> layout \<Rightarrow> (unit result) option" where
  "perform (Update secs v) L = update secs v L"
| "perform (SetAvailableHeight v) L = setAvailableHeight v L"
| "perform (CollapseSection k) L = collapseSection k L"
| "perform (ExpandSection k height) L = expandSection k height L"
| "perform (SetHeight hdl height) L =
     (case setHeight hdl height L of
        None \<Rightarrow> None
      | Some (Inl e) \<Rightarrow> Some (Inl e)
      | Some (Inr (_, L')) \<Rightarrow> Some (Inr ((), L')))"
| "perform (Finish hdl) L = Some (Inr ((), snd (finish hdl L)))"

text \<open>The numbers an operation brings are finite, the section list of an
  \<^verbatim>\<open>update\<close> has distinct ids, and what is stored for its sections is a finite
  number or falsy.\<close>

fun opOK :: "operation \<Rightarrow> layout \<Rightarrow> bool" where
  "opOK (Update secs v) L =
     (distinct (map sec_id secs)
      \<and> list_all (\<lambda>s. isFinite (js_get (sectionHeights L) (sec_id s))
                          \<or> \<not> truthy (js_get (sectionHeights L) (sec_id s))) secs)"
| "opOK (SetAvailableHeight v) L = isFinite v"
| "opOK (CollapseSection k) L = True"
| "opOK (ExpandSection k height) L = isFinite height"
| "opOK (SetHeight hdl height) L = (isFinite height \<and> isFinite (initialHeight hdl))"
| "opOK (Finish hdl) L = True"

text \<open>The sum of the committed heights, as \<^verbatim>\<open>_applyNewSize\<close> adds them up, is
  within 1 of the height to fill, or every section is at its minimum or its maximum.\<close>

definition committedSum :: "layout \<Rightarrow> jsval" where
  "committedSum L = foldl js_add (Num 0) (committedHeights L)"

definition atBounds :: "layout \<Rightarrow> bool" where
  "atBounds L =
     list_all (\<lambda>i. committedHeights L ! i = Num (spec_minHeight L i)
                    \<or> committedHeights L ! i = Num (spec_maxHeight L i))
       [0..<length (sections L)]"

definition sumSettled :: "layout \<Rightarrow> bool" where
  "sumSettled L =
     (case (committedSum L, getAvailableHeight L) of
        (Num c, Num t) \<Rightarrow> \<bar>c - t\<bar> \<le> 1 \<or> atBounds L
      | _ \<Rightarrow> False)"

text \<open>What is asked of the committed sum after a redistribution among all the sections:
  it is within 1 of the height to fill, or it is above that height with every section at its
  minimum, or below it with every section at its maximum.\<close>

definition allAtMin :: "layout \<Rightarrow> bool" where
  "allAtMin L =
     list_all (\<lambda>i. committedHeights L ! i = Num (spec_minHeight L i)) [0..<length (sections L)]"

definition allAtMax :: "layout \<Rightarrow> bool" where
  "allAtMax L =
     list_all (\<lambda>i. committedHeights L ! i = Num (spec_maxHeight L i)) [0..<length (sections L)]"

definition sumFits :: "layout \<Rightarrow> bool" where
  "sumFits L =
     (case (committedSum L, getAvailableHeight L) of
        (Num c, Num t) \<Rightarrow> \<bar>c - t\<bar> \<le> 1 \<or> (t < c \<and> allAtMin L) \<or> (c < t \<and> allAtMax L)
      | _ \<Rightarrow> False)"

text \<open>The operations that redistribute among all the sections, with what they are given:
  an \<^verbatim>\<open>update\<close> that changes the available height or the section list, whose ids
  are distinct and for whose sections the stored height is falsy (it is then seeded) or
  within the bounds the section has in the updated layout; \<^verbatim>\<open>setAvailableHeight\<close>
  with a finite height; \<^verbatim>\<open>collapseSection\<close> on a layout whose committed sum is not
  more than 1 above the height to fill.\<close>

fun wholeListOK :: "operation \<Rightarrow> layout \<Rightarrow> bool" where
  "wholeListOK (Update secs v) L =
     (let L2 = L\<lparr>availableHeight := (if isFinite v then v else availableHeight L),
                  sections := secs\<rparr>
      in ((isFinite v \<and> v \<noteq> availableHeight L) \<or> secs \<noteq> sections L)
         \<and> distinct (map sec_id secs)
         \<and> list_all (\<lambda>i. \<not> truthy (js_get (sectionHeights L) (sec_id (secs ! i)))
                        \<or> (case js_get (sectionHeights L) (sec_id (secs ! i)) of
                             Num h \<Rightarrow> spec_minHeight L2 i \<le> h \<and> h \<le> spec_maxHeight L2 i
                           | _ \<Rightarrow> False))
              [0..<length secs])"
| "wholeListOK (SetAvailableHeight v) L = isFinite v"
| "wholeListOK (CollapseSection k) L =
     (case (committedSum L, getAvailableHeight L) of
        (Num c, Num t) \<Rightarrow> c \<le> t + 1
      | _ \<Rightarrow> False)"
| "wholeListOK _ L = False"

subsection \<open>A layout to try the properties on\<close>

text \<open>The example of the specification: sections A with 3 items and B with 5, in a
  height of 400. \<open>exampleLayout\<close> is the layout after the first \<^verbatim>\<open>update\<close>.\<close>

definition exampleSections :: "roomSection list" where
  "exampleSections = [\<lparr>sec_id = ''A'', sec_count = 3\<rparr>, \<lparr>sec_id = ''B'', sec_count = 5\<rparr>]"

definition exampleLayout :: layout where
  "exampleLayout =
     \<lparr> sections = exampleSections, collapsedState = Map.empty, availableHeight = Num 400,
       sectionHeights = [''A'' \<mapsto> Num (399 / 2), ''B'' \<mapsto> Num (399 / 2)],
       heights = [Num (399 / 2), Num (399 / 2)],
       applied = [(''A'', Num (399 / 2)), (''B'', Num (399 / 2))] \<rparr>"

text \<open>A layout as \<^verbatim>\<open>update\<close> has it when it starts to seed: the sections and the
  available height of the example are adopted, and the map of stored heights, given to the
  constructor, holds 0 for A and 120 for B.\<close>

definition storedLayout :: layout where
  "storedLayout =
     (newLayout [''A'' \<mapsto> Num 0, ''B'' \<mapsto> Num 120] Map.empty)
       \<lparr>availableHeight := Num 400, sections := exampleSections\<rparr>"

section \<open>Termination of the redistribution\<close>

subsection \<open>The arithmetic and the bounds\<close>

lemma js_sub_Num [simp]: "js_sub (Num a) (Num b) = Num (a - b)"
  by (simp add: js_sub_def)

lemma js_sub_sub_Num: "js_sub (js_sub x (Num a)) (Num b) = js_sub x (Num (a + b))"
  by (cases x) (auto simp: js_sub_def algebra_simps)

lemma js_div_Num: "js_div ov n = Num q \<Longrightarrow> 0 < n \<Longrightarrow> ov = Num (q * of_nat n)"
  by (cases ov) (auto split: if_splits)

lemma isCollapsed_upd [simp]:
  "isCollapsed (L\<lparr>heights := hs\<rparr>) k = isCollapsed L k"
  "isCollapsed (L\<lparr>applied := ap\<rparr>) k = isCollapsed L k"
  "isCollapsed (L\<lparr>sectionHeights := m\<rparr>) k = isCollapsed L k"
  "isCollapsed (L\<lparr>availableHeight := v\<rparr>) k = isCollapsed L k"
  by (simp_all add: isCollapsed_def)

lemma getMaxHeight_upd [simp]:
  "getMaxHeight (L\<lparr>heights := hs\<rparr>) i = getMaxHeight L i"
  "getMaxHeight (L\<lparr>applied := ap\<rparr>) i = getMaxHeight L i"
  "getMaxHeight (L\<lparr>sectionHeights := m\<rparr>) i = getMaxHeight L i"
  "getMaxHeight (L\<lparr>availableHeight := v\<rparr>) i = getMaxHeight L i"
  by (simp_all add: getMaxHeight_def)

lemma getMinHeight_upd [simp]:
  "getMinHeight (L\<lparr>heights := hs\<rparr>) i = getMinHeight L i"
  "getMinHeight (L\<lparr>applied := ap\<rparr>) i = getMinHeight L i"
  "getMinHeight (L\<lparr>sectionHeights := m\<rparr>) i = getMinHeight L i"
  "getMinHeight (L\<lparr>availableHeight := v\<rparr>) i = getMinHeight L i"
  by (simp_all add: getMinHeight_def)

lemma getMinHeight_Num: "getMinHeight L i = Inr mn \<Longrightarrow> \<exists>m. mn = Num m"
  by (auto simp: getMinHeight_def sectionHeight_def Let_def split: if_splits)

lemma getMaxHeight_Num: "getMaxHeight L i = Inr mx \<Longrightarrow> \<exists>m. mx = Num m"
  by (auto simp: getMaxHeight_def sectionHeight_def Let_def split: if_splits)

lemma getMinHeight_spec:
  "0 \<le> i \<Longrightarrow> i < int (length (sections L))
   \<Longrightarrow> getMinHeight L i = Inr (Num (spec_minHeight L (nat i)))"
  by (simp add: getMinHeight_def spec_minHeight_def sectionHeight_def spec_sectionHeight_def Let_def)

lemma getMaxHeight_spec:
  "0 \<le> i \<Longrightarrow> i < int (length (sections L))
   \<Longrightarrow> getMaxHeight L i = Inr (Num (spec_maxHeight L (nat i)))"
  by (simp add: getMaxHeight_def spec_maxHeight_def sectionHeight_def spec_sectionHeight_def Let_def)

lemma spec_bounds_upd [simp]:
  "spec_minHeight (L\<lparr>heights := hs\<rparr>) i = spec_minHeight L i"
  "spec_maxHeight (L\<lparr>heights := hs\<rparr>) i = spec_maxHeight L i"
  "spec_minHeight (L\<lparr>applied := ap\<rparr>) i = spec_minHeight L i"
  "spec_maxHeight (L\<lparr>applied := ap\<rparr>) i = spec_maxHeight L i"
  "spec_minHeight (L\<lparr>sectionHeights := m\<rparr>) i = spec_minHeight L i"
  "spec_maxHeight (L\<lparr>sectionHeights := m\<rparr>) i = spec_maxHeight L i"
  "spec_minHeight (L\<lparr>availableHeight := v\<rparr>) i = spec_minHeight L i"
  "spec_maxHeight (L\<lparr>availableHeight := v\<rparr>) i = spec_maxHeight L i"
  by (simp_all add: spec_minHeight_def spec_maxHeight_def)

lemma spec_bounds_order: "spec_minHeight L i \<le> spec_maxHeight L i"
  by (simp add: spec_minHeight_def spec_maxHeight_def spec_sectionHeight_def min_def)

lemma getMaxHeight_bad_index:
  "\<not> (0 \<le> i \<and> i < int (length (sections L))) \<Longrightarrow> getMaxHeight L i = Inl TypeError"
  by (simp add: getMaxHeight_def)

lemma unclamped_finite:
  assumes "js_eq (clamp (js_sub h ops) (Num a) (Num b)) (js_sub h ops)"
  shows "\<exists>p q. h = Num p \<and> ops = Num q"
  using assms
  by (cases h; cases ops) (auto simp: clamp_def js_sub_def js_gt_def split: if_splits)

subsection \<open>One turn of the loop\<close>

lemma step_unclamped:
  assumes "applyOverflow_step i ov ops uncl L = Inr ((ov', uncl'), L')"
  shows "uncl' = uncl \<or> (uncl' = uncl @ [i] \<and> (\<exists>q. ops = Num q \<and> ov' = js_sub ov (Num q)))"
proof -
  from assms obtain mn mx where
    mn: "getMinHeight L (int i) = Inr mn" and mx: "getMaxHeight L (int i) = Inr mx"
    by (auto simp: applyOverflow_step_def split: sum.splits)
  obtain a b where ab: "mn = Num a" "mx = Num b"
    using getMinHeight_Num [OF mn] getMaxHeight_Num [OF mx] by auto
  define h where "h = js_nth (heights L) i"
  define nh where "nh = clamp (js_sub h ops) mn mx"
  from assms mn mx have res:
    "uncl' = (if js_eq nh (js_sub h ops) then uncl @ [i] else uncl)"
    "ov' = js_sub ov (js_sub h nh)"
    by (simp_all add: applyOverflow_step_def Let_def h_def nh_def)
  show ?thesis
  proof (cases "js_eq nh (js_sub h ops)")
    case False
    with res show ?thesis by simp
  next
    case True
    then obtain p q where pq: "h = Num p" "ops = Num q"
      using unclamped_finite [of h ops a b] by (auto simp: nh_def ab)
    from True pq have "nh = Num (p - q)" by (cases nh) auto
    with res True pq show ?thesis by simp
  qed
qed

lemma step_frame:
  "applyOverflow_step i ov ops uncl L = r
   \<Longrightarrow> (case r of Inl (e, L') \<Rightarrow> L' = L
               | Inr ((ov', uncl'), L') \<Rightarrow> \<exists>hs. L' = L\<lparr>heights := hs\<rparr>)"
  by (auto simp: applyOverflow_step_def Let_def split: sum.splits)

subsection \<open>The loop\<close>

lemma loop_Cons_Inr:
  assumes "applyOverflow_loop blend (i # rest) ov ops uncl L = Inr res"
  obtains ov1 uncl1 L1 where "applyOverflow_step i ov ops uncl L = Inr ((ov1, uncl1), L1)"
    and "(\<not> blend \<and> js_lt (js_abs ov1) (Num 1) \<and> res = ((ov1, uncl1), L1))
         \<or> (\<not> (\<not> blend \<and> js_lt (js_abs ov1) (Num 1))
            \<and> applyOverflow_loop blend rest ov1 (if blend then ops else ov1) uncl1 L1 = Inr res)"
proof (cases "applyOverflow_step i ov ops uncl L")
  case (Inl e)
  with assms show ?thesis by simp
next
  case (Inr t)
  obtain ov1 uncl1 L1 where t: "t = ((ov1, uncl1), L1)" by (cases t) auto
  from assms Inr t show ?thesis
    by (intro that [of ov1 uncl1 L1]) (auto split: if_splits)
qed

lemma loop_length:
  "applyOverflow_loop blend xs ov ops uncl L = Inr ((ov', uncl'), L')
   \<Longrightarrow> length uncl' \<le> length uncl + length xs"
proof (induction xs arbitrary: ov ops uncl L)
  case Nil
  then show ?case by simp
next
  case (Cons i rest)
  from Cons.prems show ?case
  proof (cases rule: loop_Cons_Inr)
    case (1 ov1 uncl1 L1)
    from step_unclamped [OF 1(1)] have len: "length uncl1 \<le> length uncl + 1" by auto
    from 1(2) show ?thesis
    proof (elim disjE conjE)
      assume "((ov', uncl'), L') = ((ov1, uncl1), L1)"
      with len show ?thesis by simp
    next
      assume "applyOverflow_loop blend rest ov1 (if blend then ops else ov1) uncl1 L1
        = Inr ((ov', uncl'), L')"
      from Cons.IH [OF this] len show ?thesis by simp
    qed
  qed
qed

lemma loop_blend_all_unclamped:
  "applyOverflow_loop True xs ov ops uncl L = Inr ((ov', uncl'), L')
   \<Longrightarrow> length uncl' = length uncl + length xs \<Longrightarrow> xs \<noteq> []
   \<Longrightarrow> \<exists>q. ops = Num q \<and> ov' = js_sub ov (Num (of_nat (length xs) * q))"
proof (induction xs arbitrary: ov uncl L)
  case Nil
  then show ?case by simp
next
  case (Cons i rest)
  from Cons.prems(1) show ?case
  proof (cases rule: loop_Cons_Inr)
    case (1 ov1 uncl1 L1)
    then have run: "applyOverflow_loop True rest ov1 ops uncl1 L1 = Inr ((ov', uncl'), L')"
      by simp
    from loop_length [OF run] Cons.prems(2) have "length uncl1 \<noteq> length uncl" by simp
    with step_unclamped [OF 1(1)] obtain q where
      q: "uncl1 = uncl @ [i]" "ops = Num q" "ov1 = js_sub ov (Num q)" by auto
    show ?thesis
    proof (cases "rest = []")
      case True
      with run q show ?thesis by simp
    next
      case False
      from Cons.prems(2) q have "length uncl' = length uncl1 + length rest" by simp
      from Cons.IH [OF run this False] q show ?thesis
        by (auto simp: js_sub_sub_Num algebra_simps)
    qed
  qed
qed

lemma loop_seq_unclamped:
  "applyOverflow_loop False xs ov ov uncl L = Inr ((ov', uncl'), L')
   \<Longrightarrow> uncl' \<noteq> uncl \<Longrightarrow> ov' = Num 0"
proof (induction xs arbitrary: ov uncl L)
  case Nil
  then show ?case by simp
next
  case (Cons i rest)
  from Cons.prems(1) show ?case
  proof (cases rule: loop_Cons_Inr)
    case (1 ov1 uncl1 L1)
    show ?thesis
    proof (cases "uncl1 = uncl")
      case True
      from 1(2) show ?thesis
      proof (elim disjE conjE)
        assume "((ov', uncl'), L') = ((ov1, uncl1), L1)"
        with True Cons.prems(2) show ?thesis by simp
      next
        assume "applyOverflow_loop False rest ov1 (if False then ov else ov1) uncl1 L1
          = Inr ((ov', uncl'), L')"
        then have "applyOverflow_loop False rest ov1 ov1 uncl L1 = Inr ((ov', uncl'), L')"
          using True by simp
        from Cons.IH [OF this Cons.prems(2)] show ?thesis .
      qed
    next
      case False
      with step_unclamped [OF 1(1)] obtain q where "ov = Num q" "ov1 = js_sub ov (Num q)"
        by auto
      then have "ov1 = Num 0" by simp
      with 1(2) show ?thesis by auto
    qed
  qed
qed

lemma loop_recursion_shrinks:
  assumes "applyOverflow_loop blend secs ov (if blend then js_div ov (length secs) else ov) [] L
             = Inr ((ov', uncl), L')"
    and "js_gt (js_abs ov') (Num 1)" and "0 < length uncl"
  shows "length uncl < length secs"
proof (cases blend)
  case False
  with assms(1) have "applyOverflow_loop False secs ov ov [] L = Inr ((ov', uncl), L')" by simp
  from loop_seq_unclamped [OF this] assms(3) have "ov' = Num 0" by auto
  with assms(2) show ?thesis by (simp add: js_gt_def)
next
  case True
  with assms(1) have l: "applyOverflow_loop True secs ov (js_div ov (length secs)) [] L = Inr ((ov', uncl), L')"
    by simp
  from loop_length [OF l] have le: "length uncl \<le> length secs" by simp
  show ?thesis
  proof (rule ccontr)
    assume "\<not> length uncl < length secs"
    with le have eq: "length uncl = length [] + length secs" by simp
    from assms(3) le have ne: "secs \<noteq> []" by auto
    from loop_blend_all_unclamped [OF l eq ne] obtain q where
      q: "js_div ov (length secs) = Num q" "ov' = js_sub ov (Num (of_nat (length secs) * q))" by auto
    from js_div_Num [OF q(1)] ne have "ov = Num (q * of_nat (length secs))" by simp
    with q(2) have "ov' = Num 0" by (simp add: algebra_simps)
    with assms(2) show False by (simp add: js_gt_def)
  qed
qed

subsection \<open>The recursion\<close>

lemma applyOverflow_Inl:
  "applyOverflow_loop blend secs ov (if blend then js_div ov (length secs) else ov) [] L = Inl e
   \<Longrightarrow> applyOverflow ov secs blend L = Some (Inl e)"
  by (subst applyOverflow.simps) (simp add: Let_def)

lemma applyOverflow_stop:
  "applyOverflow_loop blend secs ov (if blend then js_div ov (length secs) else ov) [] L
     = Inr ((ov', uncl), L')
   \<Longrightarrow> \<not> (js_gt (js_abs ov') (Num 1) \<and> 0 < length uncl)
   \<Longrightarrow> applyOverflow ov secs blend L = Some (Inr (ov', L'))"
  by (subst applyOverflow.simps) (auto simp add: Let_def)

lemma applyOverflow_rec:
  "applyOverflow_loop blend secs ov (if blend then js_div ov (length secs) else ov) [] L
     = Inr ((ov', uncl), L')
   \<Longrightarrow> js_gt (js_abs ov') (Num 1) \<Longrightarrow> 0 < length uncl
   \<Longrightarrow> applyOverflow ov secs blend L = applyOverflow ov' uncl blend L'"
  by (subst applyOverflow.simps) (simp add: Let_def)

lemma applyOverflow_induct [case_names pass]:
  assumes "\<And>ov secs L.
     (\<And>ov' uncl L'.
        applyOverflow_loop blend secs ov (if blend then js_div ov (length secs) else ov) [] L
          = Inr ((ov', uncl), L')
        \<Longrightarrow> js_gt (js_abs ov') (Num 1) \<Longrightarrow> 0 < length uncl \<Longrightarrow> P ov' uncl L')
     \<Longrightarrow> P ov secs L"
  shows "P ov secs L"
proof (induction "length secs" arbitrary: ov secs L rule: less_induct)
  case less
  show ?case
    by (rule assms, rule less, rule loop_recursion_shrinks)
qed

lemma applyOverflow_total: "\<exists>r. applyOverflow ov secs blend L = Some r"
proof (induction ov secs L rule: applyOverflow_induct [where blend = blend])
  case (pass ov secs L)
  show ?case
  proof (cases "applyOverflow_loop blend secs ov (if blend then js_div ov (length secs) else ov) [] L")
    case (Inl e)
    from applyOverflow_Inl [OF this] show ?thesis by simp
  next
    case (Inr t)
    obtain ov' uncl L' where t: "t = ((ov', uncl), L')" by (cases t) auto
    note l = Inr [unfolded t]
    show ?thesis
    proof (cases "js_gt (js_abs ov') (Num 1) \<and> 0 < length uncl")
      case False
      from applyOverflow_stop [OF l False] show ?thesis by simp
    next
      case True
      with applyOverflow_rec [OF l] pass [OF l] show ?thesis by simp
    qed
  qed
qed

lemma rebalanceAbove_total: "\<exists>r. rebalanceAbove a ov L = Some r"
  using applyOverflow_total by (simp add: rebalanceAbove_def)

lemma rebalanceBelow_total: "\<exists>r. rebalanceBelow a ov L = Some r"
  using applyOverflow_total by (simp add: rebalanceBelow_def)

lemma rebalanceBoth_total: "\<exists>r. rebalanceBoth a ovA ovB L = Some r"
proof -
  obtain r1 where r1: "rebalanceAbove a ovA L = Some r1" using rebalanceAbove_total by blast
  show ?thesis
  proof (cases r1)
    case (Inl e)
    with r1 show ?thesis by (simp add: rebalanceBoth_def)
  next
    case (Inr p)
    obtain oa L3 where p: "p = (oa, L3)" by (cases p)
    obtain r2 where r2: "rebalanceBelow a ovB L3 = Some r2" using rebalanceBelow_total by blast
    with r1 Inr p show ?thesis
      by (cases r2) (auto simp: rebalanceBoth_def split: prod.splits)
  qed
qed

lemma relayout_pass_total: "\<exists>r. relayout_pass L anc offset = Some r"
  using rebalanceBoth_total by (simp add: relayout_pass_def Let_def split: sum.splits)

lemma relayout_True:
  "relayout L anc offset True =
     (case relayout_pass L anc offset of
        None \<Rightarrow> None
      | Some (Inl e) \<Rightarrow> Some (Inl e)
      | Some (Inr (_, L4)) \<Rightarrow> Some (Inr (Undefined, applyHeights L4)))"
  by (subst relayout.simps) (simp split: option.splits sum.splits prod.splits)

lemma relayout_clamped_total: "\<exists>r. relayout L anc offset True = Some r"
  using relayout_pass_total [of L anc offset]
  by (auto simp: relayout_True split: sum.splits prod.splits)

lemma relayout_total: "\<exists>r. relayout L anc offset clamped = Some r"
proof -
  obtain r where r: "relayout_pass L anc offset = Some r"
    using relayout_pass_total by blast
  show ?thesis
  proof (cases r)
    case (Inl e)
    with r show ?thesis by (subst relayout.simps) simp
  next
    case (Inr p)
    obtain oa ob L4 where p: "p = ((oa, ob), L4)" by (cases p) auto
    obtain r3 where r3: "relayout L4 anc (js_add offset oa) True = Some r3"
      using relayout_clamped_total by blast
    obtain r4 where r4: "relayout L4 anc (js_sub offset ob) True = Some r4"
      using relayout_clamped_total by blast
    from r Inr p r3 r4 show ?thesis
      by (subst relayout.simps) (cases r3; cases r4; auto)
  qed
qed

lemma setHeight_total: "\<exists>r. setHeight hdl height L = Some r"
  using relayout_total [of L "anchor hdl" "js_sub height (initialHeight hdl)" False]
  by (auto simp: setHeight_def split: sum.splits prod.splits)

lemma applyNewSize_total: "\<exists>r. applyNewSize L = Some r"
proof -
  obtain r where "applyOverflow (js_neg (js_sub (getAvailableHeight L)
      (foldl (\<lambda>sum s. js_add sum (js_get (sectionHeights L) (sec_id s))) (Num 0) (sections L))))
      [0..<length (sections L)] True (L\<lparr>heights := committedHeights L\<rparr>) = Some r"
    using applyOverflow_total by blast
  then show ?thesis
    by (cases r) (auto simp: applyNewSize_def Let_def split: prod.splits)
qed

text \<open>
  C3: the redistribution always terminates. \<open>applyOverflow\<close> returns for every overflow,
  every list of section indices and both modes (an index out of range ends it with the
  \<open>TypeError\<close> of the source); with no section to visit it returns the overflow at once.
  \<open>relayout\<close> returns for every anchor and offset, and a run with the \<open>clamped\<close> flag
  set is a single pass that never calls \<open>relayout\<close> again, so the re-run of an unclamped
  run is the last one. Hence every \<open>setHeight\<close> and every whole-list redistribution
  (\<open>applyNewSize\<close>) returns.
\<close>

theorem C3_redistribution_terminates:
  "(\<exists>r. applyOverflow ov secs blend L = Some r)
   \<and> applyOverflow ov [] blend L = Some (Inr (ov, L))
   \<and> (\<exists>r. relayout L anc offset clamped = Some r)
   \<and> relayout L anc offset True =
       (case relayout_pass L anc offset of
          None \<Rightarrow> None
        | Some (Inl e) \<Rightarrow> Some (Inl e)
        | Some (Inr (_, L4)) \<Rightarrow> Some (Inr (Undefined, applyHeights L4)))
   \<and> (\<exists>r. setHeight hdl height L = Some r)
   \<and> (\<exists>r. applyNewSize L = Some r)"
proof -
  have "applyOverflow ov [] blend L = Some (Inr (ov, L))"
    by (subst applyOverflow.simps) simp
  then show ?thesis
    using applyOverflow_total relayout_total relayout_True setHeight_total applyNewSize_total
    by blast
qed

section \<open>What the redistribution changes\<close>

lemma state_of_Inl [simp]: "state_of (Inl e) = snd e"
  by (cases e) simp

lemma state_of_rerun [simp]:
  "state_of (case r' of Inl e \<Rightarrow> Inl e | Inr (x, L5) \<Rightarrow> Inr (v, L5)) = state_of r'"
  by (cases r') auto

lemma onlyHeightsChanged_refl [simp]: "onlyHeightsChanged L L"
  by (simp add: onlyHeightsChanged_def)

lemma onlyHeightsChanged_upd [simp]: "onlyHeightsChanged L (L\<lparr>heights := hs\<rparr>)"
  by (simp add: onlyHeightsChanged_def)

lemma onlyHeightsChanged_trans:
  "onlyHeightsChanged L L1 \<Longrightarrow> onlyHeightsChanged L1 L2 \<Longrightarrow> onlyHeightsChanged L L2"
  by (simp add: onlyHeightsChanged_def)

lemma onlyHeightsChanged_eq:
  "onlyHeightsChanged L L' \<Longrightarrow> L' = L\<lparr>heights := heights L'\<rparr>"
  by (simp add: onlyHeightsChanged_def)

lemma committedUnchanged_refl [simp]: "committedUnchanged L L"
  by (simp add: committedUnchanged_def)

lemma onlyHeightsChanged_committed:
  "onlyHeightsChanged L L' \<Longrightarrow> committedUnchanged L L'"
  by (simp add: onlyHeightsChanged_def committedUnchanged_def)

lemma committedUnchanged_trans:
  "committedUnchanged L L1 \<Longrightarrow> committedUnchanged L1 L2 \<Longrightarrow> committedUnchanged L L2"
  by (simp add: committedUnchanged_def)

lemma committedUnchanged_applyHeights [simp]: "committedUnchanged L (applyHeights L)"
  by (simp add: committedUnchanged_def applyHeights_def)

lemma committedUnchanged_eq:
  "committedUnchanged L L' \<Longrightarrow> L' = L\<lparr>heights := heights L', applied := applied L'\<rparr>"
  by (simp add: committedUnchanged_def)

lemma step_onlyHeights:
  "applyOverflow_step i ov ops uncl L = r \<Longrightarrow> onlyHeightsChanged L (state_of r)"
  using step_frame [of i ov ops uncl L r]
  by (cases r) (auto split: prod.splits)

lemma loop_frame:
  "applyOverflow_loop blend xs ov ops uncl L = r
   \<Longrightarrow> (case r of Inl (e, L') \<Rightarrow> onlyHeightsChanged L L'
               | Inr ((ov', uncl'), L') \<Rightarrow> onlyHeightsChanged L L')"
proof (induction xs arbitrary: ov ops uncl L)
  case Nil
  then show ?case by auto
next
  case (Cons i rest)
  show ?case
  proof (cases "applyOverflow_step i ov ops uncl L")
    case (Inl e)
    with Cons.prems step_onlyHeights [OF Inl] show ?thesis by (cases e) auto
  next
    case (Inr t)
    obtain ov1 uncl1 L1 where t: "t = ((ov1, uncl1), L1)" by (cases t) auto
    from step_onlyHeights [OF Inr] t have L1: "onlyHeightsChanged L L1" by simp
    show ?thesis
    proof (cases "\<not> blend \<and> js_lt (js_abs ov1) (Num 1)")
      case True
      with Cons.prems Inr t L1 show ?thesis by auto
    next
      case False
      with Cons.prems Inr t
      have "applyOverflow_loop blend rest ov1 (if blend then ops else ov1) uncl1 L1 = r"
        by auto
      from Cons.IH [OF this] L1 show ?thesis
        by (auto split: sum.splits intro: onlyHeightsChanged_trans)
    qed
  qed
qed

lemma applyOverflow_frame:
  "applyOverflow ov secs blend L = Some r \<Longrightarrow> onlyHeightsChanged L (state_of r)"
proof (induction ov secs L arbitrary: r rule: applyOverflow_induct [where blend = blend])
  case (pass ov secs L)
  show ?case
  proof (cases "applyOverflow_loop blend secs ov (if blend then js_div ov (length secs) else ov) [] L")
    case (Inl e)
    from applyOverflow_Inl [OF Inl] pass.prems have "r = Inl e" by simp
    with loop_frame [OF Inl] show ?thesis by (cases e) auto
  next
    case (Inr t)
    obtain ov' uncl L' where t: "t = ((ov', uncl), L')" by (cases t) auto
    from loop_frame [OF Inr] t have L': "onlyHeightsChanged L L'" by auto
    show ?thesis
    proof (cases "js_gt (js_abs ov') (Num 1) \<and> 0 < length uncl")
      case False
      from applyOverflow_stop [OF Inr [unfolded t] False] pass.prems L'
      show ?thesis by auto
    next
      case True
      from applyOverflow_rec [OF Inr [unfolded t]] True pass.prems
      have "applyOverflow ov' uncl blend L' = Some r" by simp
      from pass.IH [OF Inr [unfolded t] _ _ this] True
      have "onlyHeightsChanged L' (state_of r)" by auto
      with L' show ?thesis by (rule onlyHeightsChanged_trans)
    qed
  qed
qed

lemma rebalanceAbove_frame:
  "rebalanceAbove a ov L = Some r \<Longrightarrow> onlyHeightsChanged L (state_of r)"
  by (cases "js_gt (js_abs ov) (Num 1)") (auto simp: rebalanceAbove_def dest: applyOverflow_frame)

lemma rebalanceBelow_frame:
  "rebalanceBelow a ov L = Some r \<Longrightarrow> onlyHeightsChanged L (state_of r)"
  by (cases "js_gt (js_abs ov) (Num 1)") (auto simp: rebalanceBelow_def dest: applyOverflow_frame)

lemma rebalanceBoth_cases:
  assumes "rebalanceBoth a ovA ovB L = Some r"
  obtains (above_thrown) e where "rebalanceAbove a ovA L = Some (Inl e)" "r = Inl e"
  | (below_thrown) oa L3 e where "rebalanceAbove a ovA L = Some (Inr (oa, L3))"
      "rebalanceBelow a ovB L3 = Some (Inl e)" "r = Inl e"
  | (both) oa L3 ob L4 where "rebalanceAbove a ovA L = Some (Inr (oa, L3))"
      "rebalanceBelow a ovB L3 = Some (Inr (ob, L4))" "r = Inr ((oa, ob), L4)"
proof -
  obtain r1 where r1: "rebalanceAbove a ovA L = Some r1"
    using rebalanceAbove_total by blast
  show thesis
  proof (cases r1)
    case (Inl e)
    with assms r1 show thesis by (auto simp: rebalanceBoth_def intro: above_thrown)
  next
    case (Inr p)
    obtain oa L3 where p: "p = (oa, L3)" by (cases p)
    obtain r2 where r2: "rebalanceBelow a ovB L3 = Some r2"
      using rebalanceBelow_total by blast
    show thesis
    proof (cases r2)
      case (Inl e)
      with assms r1 Inr p r2 show thesis by (auto simp: rebalanceBoth_def intro: below_thrown)
    next
      case r2r: (Inr p2)
      obtain ob L4 where "p2 = (ob, L4)" by (cases p2)
      with assms r1 Inr p r2 r2r show thesis by (auto simp: rebalanceBoth_def intro: both)
    qed
  qed
qed

lemma rebalanceBoth_frame:
  assumes "rebalanceBoth a ovA ovB L = Some r"
  shows "onlyHeightsChanged L (state_of r)"
  using assms
proof (cases rule: rebalanceBoth_cases)
  case (above_thrown e)
  with rebalanceAbove_frame [OF above_thrown(1)] show ?thesis by simp
next
  case (below_thrown oa L3 e)
  with rebalanceAbove_frame [OF below_thrown(1)] rebalanceBelow_frame [OF below_thrown(2)]
  show ?thesis by (auto intro: onlyHeightsChanged_trans)
next
  case (both oa L3 ob L4)
  with rebalanceAbove_frame [OF both(1)] rebalanceBelow_frame [OF both(2)]
  show ?thesis by (auto intro: onlyHeightsChanged_trans)
qed

lemma relayout_pass_cases:
  assumes "relayout_pass L anc offset = Some r"
  obtains (bad_anchor) "\<not> (0 \<le> anc \<and> anc < int (length (sections L)))"
      "r = Inl (TypeError, L\<lparr>heights := committedHeights L\<rparr>)"
  | (anchored) "0 \<le> anc" "anc < int (length (sections L))"
      "rebalanceBoth (nat anc)
         (anchorOverflowAbove (js_nth (committedHeights L) (nat anc)) offset
            (Num (spec_minHeight L (nat anc))) (Num (spec_maxHeight L (nat anc))))
         offset
         (L\<lparr>heights := js_set (committedHeights L) (nat anc)
              (clamp (js_add (js_nth (committedHeights L) (nat anc)) offset)
                 (Num (spec_minHeight L (nat anc))) (Num (spec_maxHeight L (nat anc))))\<rparr>)
       = Some r"
proof (cases "0 \<le> anc \<and> anc < int (length (sections L))")
  case False
  with assms have "r = Inl (TypeError, L\<lparr>heights := committedHeights L\<rparr>)"
    by (simp add: relayout_pass_def getMaxHeight_bad_index)
  with False show thesis by (rule bad_anchor)
next
  case True
  with assms show thesis
    by (intro anchored) (simp_all add: relayout_pass_def Let_def getMinHeight_spec getMaxHeight_spec)
qed

lemma relayout_pass_frame:
  assumes "relayout_pass L anc offset = Some r"
  shows "onlyHeightsChanged L (state_of r)"
  using assms
proof (cases rule: relayout_pass_cases)
  case bad_anchor
  then show ?thesis by simp
next
  case anchored
  from rebalanceBoth_frame [OF anchored(3)] show ?thesis
    by (simp add: onlyHeightsChanged_def)
qed

lemma relayout_cases:
  assumes "relayout L anc offset clamped = Some r"
  obtains (thrown) e where "relayout_pass L anc offset = Some (Inl e)" "r = Inl e"
  | (above) oa ob L4 r' where "relayout_pass L anc offset = Some (Inr ((oa, ob), L4))"
      "\<not> clamped" "js_gt (js_abs oa) (Num 1)"
      "relayout L4 anc (js_add offset oa) True = Some r'"
      "r = (case r' of Inl e \<Rightarrow> Inl e | Inr (x, L5) \<Rightarrow> Inr (js_add offset oa, L5))"
  | (below) oa ob L4 r' where "relayout_pass L anc offset = Some (Inr ((oa, ob), L4))"
      "\<not> clamped" "\<not> js_gt (js_abs oa) (Num 1)" "js_gt (js_abs ob) (Num 1)"
      "relayout L4 anc (js_sub offset ob) True = Some r'"
      "r = (case r' of Inl e \<Rightarrow> Inl e | Inr (x, L5) \<Rightarrow> Inr (js_sub offset ob, L5))"
  | (settled) oa ob L4 where "relayout_pass L anc offset = Some (Inr ((oa, ob), L4))"
      "clamped \<or> (\<not> js_gt (js_abs oa) (Num 1) \<and> \<not> js_gt (js_abs ob) (Num 1))"
      "r = Inr (Undefined, applyHeights L4)"
proof -
  obtain r0 where r0: "relayout_pass L anc offset = Some r0"
    using relayout_pass_total by blast
  show thesis
  proof (cases r0)
    case (Inl e)
    with assms r0 have "r = Inl e" by (subst (asm) relayout.simps) simp
    with r0 Inl show thesis by (auto intro: thrown)
  next
    case (Inr p)
    obtain oa ob L4 where p: "p = ((oa, ob), L4)" by (cases p) auto
    note pass = r0 [unfolded Inr p]
    consider "\<not> clamped \<and> js_gt (js_abs oa) (Num 1)"
      | "\<not> clamped \<and> \<not> js_gt (js_abs oa) (Num 1) \<and> js_gt (js_abs ob) (Num 1)"
      | "clamped \<or> (\<not> js_gt (js_abs oa) (Num 1) \<and> \<not> js_gt (js_abs ob) (Num 1))"
      by blast
    then show thesis
    proof cases
      case 1
      obtain r' where r': "relayout L4 anc (js_add offset oa) True = Some r'"
        using relayout_total by blast
      from assms pass 1 r' have "r = (case r' of Inl e \<Rightarrow> Inl e | Inr (x, L5) \<Rightarrow> Inr (js_add offset oa, L5))"
        by (subst (asm) relayout.simps) (auto split: sum.splits)
      with pass 1 r' show thesis by (auto intro: above)
    next
      case 2
      obtain r' where r': "relayout L4 anc (js_sub offset ob) True = Some r'"
        using relayout_total by blast
      from assms pass 2 r' have "r = (case r' of Inl e \<Rightarrow> Inl e | Inr (x, L5) \<Rightarrow> Inr (js_sub offset ob, L5))"
        by (subst (asm) relayout.simps) (auto split: sum.splits)
      with pass 2 r' show thesis by (auto intro: below)
    next
      case 3
      with assms pass have "r = Inr (Undefined, applyHeights L4)"
        by (subst (asm) relayout.simps) auto
      with pass 3 show thesis by (auto intro: settled)
    qed
  qed
qed

lemma relayout_True_frame:
  assumes "relayout L anc offset True = Some r"
  shows "committedUnchanged L (state_of r)"
  using assms
proof (cases rule: relayout_cases)
  case (thrown e)
  from onlyHeightsChanged_committed [OF relayout_pass_frame [OF thrown(1)]] thrown(2)
  show ?thesis by simp
next
  case (settled oa ob L4)
  from onlyHeightsChanged_committed [OF relayout_pass_frame [OF settled(1)]] settled(3)
  show ?thesis by (auto intro: committedUnchanged_trans [OF _ committedUnchanged_applyHeights])
qed simp_all

lemma relayout_frame:
  assumes "relayout L anc offset clamped = Some r"
  shows "committedUnchanged L (state_of r)"
  using assms
proof (cases rule: relayout_cases)
  case (thrown e)
  from onlyHeightsChanged_committed [OF relayout_pass_frame [OF thrown(1)]] thrown(2)
  show ?thesis by simp
next
  case (above oa ob L4 r')
  from onlyHeightsChanged_committed [OF relayout_pass_frame [OF above(1)]]
    relayout_True_frame [OF above(4)] above(5)
  show ?thesis by (auto intro: committedUnchanged_trans)
next
  case (below oa ob L4 r')
  from onlyHeightsChanged_committed [OF relayout_pass_frame [OF below(1)]]
    relayout_True_frame [OF below(5)] below(6)
  show ?thesis by (auto intro: committedUnchanged_trans)
next
  case (settled oa ob L4)
  from onlyHeightsChanged_committed [OF relayout_pass_frame [OF settled(1)]] settled(3)
  show ?thesis by (auto intro: committedUnchanged_trans [OF _ committedUnchanged_applyHeights])
qed

section \<open>The trace of the callback and the in-progress heights do not steer a relayout\<close>

lemma earlier_calls_simps [simp]:
  "sections (earlier_calls p L) = sections L"
  "collapsedState (earlier_calls p L) = collapsedState L"
  "availableHeight (earlier_calls p L) = availableHeight L"
  "sectionHeights (earlier_calls p L) = sectionHeights L"
  "heights (earlier_calls p L) = heights L"
  "applied (earlier_calls p L) = p @ applied L"
  by (simp_all add: earlier_calls_def)

lemma earlier_calls_heights [simp]:
  "(earlier_calls p L)\<lparr>heights := hs\<rparr> = earlier_calls p (L\<lparr>heights := hs\<rparr>)"
  by (simp add: earlier_calls_def)

lemma bounds_earlier [simp]:
  "getMinHeight (earlier_calls p L) i = getMinHeight L i"
  "getMaxHeight (earlier_calls p L) i = getMaxHeight L i"
  "committedHeights (earlier_calls p L) = committedHeights L"
  by (simp_all add: earlier_calls_def committedHeights_def)

lemma with_state_simps [simp]:
  "with_state f (Inl e) = Inl (fst e, f (snd e))"
  by (cases e) simp

lemma step_earlier:
  "applyOverflow_step i ov ops uncl (earlier_calls p L)
   = with_state (earlier_calls p) (applyOverflow_step i ov ops uncl L)"
  by (simp add: applyOverflow_step_def Let_def split: sum.splits)

lemma loop_earlier:
  "applyOverflow_loop blend xs ov ops uncl (earlier_calls p L)
   = with_state (earlier_calls p) (applyOverflow_loop blend xs ov ops uncl L)"
proof (induction xs arbitrary: ov ops uncl L blend)
  case Nil
  show ?case by simp
next
  case (Cons i rest)
  show ?case
  proof (cases "applyOverflow_step i ov ops uncl L")
    case (Inl e)
    then show ?thesis by (simp add: step_earlier)
  next
    case (Inr t)
    obtain ov1 uncl1 L1 where t: "t = ((ov1, uncl1), L1)" by (cases t) auto
    with Inr show ?thesis by (simp add: step_earlier Cons.IH)
  qed
qed

lemma applyOverflow_earlier:
  "applyOverflow ov secs blend (earlier_calls p L)
   = map_option (with_state (earlier_calls p)) (applyOverflow ov secs blend L)"
proof (induction ov secs L rule: applyOverflow_induct [where blend = blend])
  case (pass ov secs L)
  let ?ops = "if blend then js_div ov (length secs) else ov"
  show ?case
  proof (cases "applyOverflow_loop blend secs ov ?ops [] L")
    case (Inl e)
    then have "applyOverflow_loop blend secs ov ?ops [] (earlier_calls p L)
        = Inl (fst e, earlier_calls p (snd e))"
      by (simp add: loop_earlier)
    from applyOverflow_Inl [OF this] applyOverflow_Inl [OF Inl] show ?thesis by simp
  next
    case (Inr t)
    obtain ov' uncl L' where t: "t = ((ov', uncl), L')" by (cases t) auto
    note l1 = Inr [unfolded t]
    from l1 have l2: "applyOverflow_loop blend secs ov ?ops [] (earlier_calls p L)
        = Inr ((ov', uncl), earlier_calls p L')"
      by (simp add: loop_earlier)
    show ?thesis
    proof (cases "js_gt (js_abs ov') (Num 1) \<and> 0 < length uncl")
      case False
      from applyOverflow_stop [OF l1 False] applyOverflow_stop [OF l2 False]
      show ?thesis by simp
    next
      case True
      then have g: "js_gt (js_abs ov') (Num 1)" "0 < length uncl" by auto
      from applyOverflow_rec [OF l1 g] applyOverflow_rec [OF l2 g] pass [OF l1 g]
      show ?thesis by simp
    qed
  qed
qed

lemma rebalanceAbove_earlier:
  "rebalanceAbove a ov (earlier_calls p L)
   = map_option (with_state (earlier_calls p)) (rebalanceAbove a ov L)"
  by (simp add: rebalanceAbove_def applyOverflow_earlier)

lemma rebalanceBelow_earlier:
  "rebalanceBelow a ov (earlier_calls p L)
   = map_option (with_state (earlier_calls p)) (rebalanceBelow a ov L)"
  by (simp add: rebalanceBelow_def applyOverflow_earlier)

lemma rebalanceBoth_earlier:
  "rebalanceBoth a ovA ovB (earlier_calls p L)
   = map_option (with_state (earlier_calls p)) (rebalanceBoth a ovA ovB L)"
proof -
  obtain r1 where r1: "rebalanceAbove a ovA L = Some r1"
    using rebalanceAbove_total by blast
  show ?thesis
  proof (cases r1)
    case (Inl e)
    with r1 show ?thesis by (simp add: rebalanceBoth_def rebalanceAbove_earlier)
  next
    case (Inr t)
    obtain oa L3 where t: "t = (oa, L3)" by (cases t)
    obtain r2 where r2: "rebalanceBelow a ovB L3 = Some r2"
      using rebalanceBelow_total by blast
    with r1 Inr t show ?thesis
      by (cases r2) (auto simp: rebalanceBoth_def rebalanceAbove_earlier rebalanceBelow_earlier)
  qed
qed

lemma relayout_pass_earlier:
  "relayout_pass (earlier_calls p L) anc offset
   = map_option (with_state (earlier_calls p)) (relayout_pass L anc offset)"
  by (simp add: relayout_pass_def Let_def rebalanceBoth_earlier split: sum.splits)

lemma applyHeights_earlier:
  "applyHeights (earlier_calls p L) = earlier_calls p (applyHeights L)"
  by (simp add: applyHeights_def earlier_calls_def)

lemma relayout_True_earlier:
  "relayout (earlier_calls p L) anc offset True
   = map_option (with_state (earlier_calls p)) (relayout L anc offset True)"
proof -
  obtain r0 where "relayout_pass L anc offset = Some r0"
    using relayout_pass_total by blast
  then show ?thesis
    by (cases r0) (auto simp: relayout_True relayout_pass_earlier applyHeights_earlier)
qed

lemma relayout_earlier:
  "relayout (earlier_calls p L) anc offset clamped
   = map_option (with_state (earlier_calls p)) (relayout L anc offset clamped)"
proof (cases clamped)
  case True
  then show ?thesis by (simp add: relayout_True_earlier)
next
  case False
  obtain r0 where r0: "relayout_pass L anc offset = Some r0"
    using relayout_pass_total by blast
  show ?thesis
  proof (cases r0)
    case (Inl e)
    with r0 show ?thesis
      by (simp add: relayout.simps [of L] relayout.simps [of "earlier_calls p L"]
            relayout_pass_earlier)
  next
    case (Inr t)
    obtain oa ob L4 where t: "t = ((oa, ob), L4)" by (cases t) auto
    obtain r3 where r3: "relayout L4 anc (js_add offset oa) True = Some r3"
      using relayout_total by blast
    obtain r4 where r4: "relayout L4 anc (js_sub offset ob) True = Some r4"
      using relayout_total by blast
    from r0 Inr t r3 r4 False show ?thesis
      by (cases r3; cases r4)
         (auto simp: relayout.simps [of L] relayout.simps [of "earlier_calls p L"]
            relayout_pass_earlier relayout_True_earlier applyHeights_earlier)
  qed
qed

lemma committedHeights_upd [simp]:
  "committedHeights (L\<lparr>heights := hs\<rparr>) = committedHeights L"
  "committedHeights (L\<lparr>applied := ap\<rparr>) = committedHeights L"
  "committedHeights (L\<lparr>availableHeight := v\<rparr>) = committedHeights L"
  by (simp_all add: committedHeights_def)

lemma relayout_pass_heights:
  "relayout_pass (L\<lparr>heights := hs\<rparr>) anc offset = relayout_pass L anc offset"
  by (simp add: relayout_pass_def)

lemma relayout_heights:
  "relayout (L\<lparr>heights := hs\<rparr>) anc offset clamped = relayout L anc offset clamped"
  by (simp add: relayout.simps [of L] relayout.simps [of "L\<lparr>heights := hs\<rparr>"]
        relayout_pass_heights)

text \<open>Two layouts with the same sections, collapsed flags and committed heights give the
  same relayout, up to the trace of the callback.\<close>

lemma relayout_committedUnchanged:
  assumes "committedUnchanged L L1"
    and "relayout L anc offset clamped = Some r" and "relayout L1 anc offset clamped = Some r1"
  shows "heights (state_of r1) = heights (state_of r) \<and> returned r1 = returned r
    \<and> (case (r, r1) of (Inr (v, _), Inr (v1, _)) \<Rightarrow> v1 = v | _ \<Rightarrow> True)"
proof -
  define B where "B = L\<lparr>applied := []\<rparr>"
  have L: "L = earlier_calls (applied L) B"
    by (simp add: B_def earlier_calls_def)
  from assms(1) have "L1\<lparr>heights := heights L\<rparr> = earlier_calls (applied L1) B"
    by (simp add: B_def earlier_calls_def committedUnchanged_def)
  then have L1: "relayout L1 anc offset clamped
      = relayout (earlier_calls (applied L1) B) anc offset clamped"
    using relayout_heights [where L = L1 and hs = "heights L"] by simp
  obtain rB where rB: "relayout B anc offset clamped = Some rB"
    using relayout_total by blast
  from assms(2) L rB have r: "r = with_state (earlier_calls (applied L)) rB"
    using relayout_earlier [of "applied L" B anc offset clamped] by simp
  from assms(3) L1 rB have r1: "r1 = with_state (earlier_calls (applied L1)) rB"
    using relayout_earlier [of "applied L1" B anc offset clamped] by simp
  show ?thesis
    unfolding r r1 by (cases rB) auto
qed

section \<open>Handles\<close>

lemma findIndex_absent: "\<forall>x\<in>set xs. \<not> P x \<Longrightarrow> findIndex P xs = - 1"
  by (induction xs) auto

lemma findIndex_present:
  "\<exists>x\<in>set xs. P x
   \<Longrightarrow> 0 \<le> findIndex P xs \<and> findIndex P xs < int (length xs) \<and> P (xs ! nat (findIndex P xs))"
proof (induction xs)
  case Nil
  then show ?case by simp
next
  case (Cons x xs)
  show ?case
  proof (cases "P x")
    case True
    then show ?thesis by simp
  next
    case False
    with Cons.prems have "\<exists>x\<in>set xs. P x" by simp
    from Cons.IH [OF this] False show ?thesis
      by (simp add: Let_def nat_add_distrib)
  qed
qed

lemma relayout_bad_anchor:
  "\<not> (0 \<le> anc \<and> anc < int (length (sections L)))
   \<Longrightarrow> relayout L anc offset clamped = Some (Inl (TypeError, L\<lparr>heights := committedHeights L\<rparr>))"
  by (subst relayout.simps) (simp add: relayout_pass_def getMaxHeight_bad_index)

lemma commit_fold_other:
  "k \<notin> sec_id ` set secs
   \<Longrightarrow> foldl (\<lambda>m (i, s). m(sec_id s \<mapsto> f i)) m (List.enumerate n secs) k = m k"
  by (induction secs arbitrary: m n) auto

lemma commit_fold_listed:
  "distinct (map sec_id secs) \<Longrightarrow> i < length secs
   \<Longrightarrow> foldl (\<lambda>m (i, s). m(sec_id s \<mapsto> f i)) m (List.enumerate n secs) (sec_id (secs ! i))
       = Some (f (n + i))"
proof (induction secs arbitrary: m n i)
  case Nil
  then show ?case by simp
next
  case (Cons s secs)
  from Cons.prems have d: "distinct (map sec_id secs)" and notin: "sec_id s \<notin> sec_id ` set secs"
    by auto
  show ?case
  proof (cases i)
    case 0
    have "(m(sec_id s \<mapsto> f n)) (sec_id s) = Some (f n)" by simp
    with commit_fold_other [OF notin, of f "m(sec_id s \<mapsto> f n)" "Suc n"] 0 show ?thesis
      by (simp del: fun_upd_apply)
  next
    case (Suc j)
    with Cons.prems have "j < length secs" by simp
    from Cons.IH [OF d this, of "m(sec_id s \<mapsto> f n)" "Suc n"] Suc show ?thesis
      by (simp del: fun_upd_apply)
  qed
qed

lemma commitHeights_frame [simp]:
  "sections (commitHeights L) = sections L"
  "collapsedState (commitHeights L) = collapsedState L"
  "availableHeight (commitHeights L) = availableHeight L"
  "heights (commitHeights L) = heights L"
  "applied (commitHeights L) = applied L"
  by (simp_all add: commitHeights_def)

lemma commitHeights_listed:
  "distinct (map sec_id (sections L)) \<Longrightarrow> i < length (sections L)
   \<Longrightarrow> sectionHeights (commitHeights L) (sec_id (sections L ! i)) = Some (js_nth (heights L) i)"
  using commit_fold_listed [of "sections L" i "js_nth (heights L)" "sectionHeights L" 0]
  by (simp add: commitHeights_def)

lemma commitHeights_other:
  "k \<notin> sec_id ` set (sections L)
   \<Longrightarrow> sectionHeights (commitHeights L) k = sectionHeights L k"
  using commit_fold_other [of k "sections L" "js_nth (heights L)" "sectionHeights L" 0]
  by (simp add: commitHeights_def)

lemma committedHeights_commit:
  assumes "distinct (map sec_id (sections L))"
  shows "committedHeights (commitHeights L) = map (js_nth (heights L)) [0..<length (sections L)]"
proof (rule nth_equalityI)
  show "length (committedHeights (commitHeights L))
      = length (map (js_nth (heights L)) [0..<length (sections L)])"
    by (simp add: committedHeights_def)
next
  fix i assume "i < length (committedHeights (commitHeights L))"
  then have i: "i < length (sections L)" by (simp add: committedHeights_def)
  with commitHeights_listed [OF assms i]
  show "committedHeights (commitHeights L) ! i
      = map (js_nth (heights L)) [0..<length (sections L)] ! i"
    by (simp add: committedHeights_def js_get_def)
qed

lemma setHeight_again:
  assumes "committedUnchanged L L'" and "setHeight hdl height L = Some (Inr (hdl1, L1))"
  shows "hdl1 = hdl \<and> (\<exists>L''. setHeight hdl height L' = Some (Inr (hdl, L''))
           \<and> heights L'' = heights L1 \<and> committedUnchanged L L'')"
proof -
  let ?off = "js_sub height (initialHeight hdl)"
  from assms(2) obtain v where r: "relayout L (anchor hdl) ?off False = Some (Inr (v, L1))"
    and hdl1: "hdl1 = hdl"
    by (auto simp: setHeight_def split: option.splits sum.splits prod.splits)
  obtain r' where r': "relayout L' (anchor hdl) ?off False = Some r'"
    using relayout_total by blast
  from relayout_committedUnchanged [OF assms(1) r r'] obtain v' L'' where
    r'': "r' = Inr (v', L'')" and h: "heights L'' = heights L1"
    by (cases r') auto
  from relayout_frame [OF r'] r'' assms(1) have "committedUnchanged L L''"
    by (auto intro: committedUnchanged_trans)
  with r' r'' h hdl1 show ?thesis by (simp add: setHeight_def)
qed

lemma setHeight_times_again:
  assumes "setHeight hdl height L = Some (Inr (hdl1, L1))" and "committedUnchanged L L'"
  shows "\<exists>Ln. setHeight_times (Suc n) hdl height L' = Some (Inr (hdl, Ln))
           \<and> heights Ln = heights L1 \<and> committedUnchanged L Ln"
  using assms(2)
proof (induction n arbitrary: L')
  case 0
  from setHeight_again [OF 0 assms(1)] show ?case by auto
next
  case (Suc n)
  from setHeight_again [OF Suc.prems assms(1)] obtain L'' where
    s: "setHeight hdl height L' = Some (Inr (hdl, L''))" and c: "committedUnchanged L L''"
    by auto
  from Suc.IH [OF c] s show ?case by simp
qed

text \<open>
  C5 (as amended): for an id that is not in the section list \<open>openHandle\<close> does not fail.
  It returns a handle anchored at index -1 whose initial height is whatever is stored for
  the id; \<open>setHeight\<close> on that handle throws a \<open>TypeError\<close>, after the in-progress
  heights have been reset to the committed ones, and \<open>finish\<close> on it commits as for any
  other handle.
\<close>

theorem C5_openHandle_unknown_id:
  assumes "k \<notin> sec_id ` set (sections L)"
  shows "openHandle L k = \<lparr> anchor = - 1, initialHeight = js_get (sectionHeights L) k \<rparr>
    \<and> setHeight (openHandle L k) height L
        = Some (Inl (TypeError, L\<lparr>heights := committedHeights L\<rparr>))
    \<and> finish (openHandle L k) L = (openHandle L k, commitHeights L)"
proof -
  from assms have "getSectionIndex L k = - 1"
    by (auto simp: getSectionIndex_def intro!: findIndex_absent)
  then show ?thesis
    by (simp add: openHandle_def setHeight_def finish_def relayout_bad_anchor)
qed

text \<open>
  C7: \<open>setHeight\<close> relayouts with the offset \<open>height - initialHeight\<close> of the handle it
  is called on and returns that handle unchanged. When a call returns, any number of further
  calls with the same height return too, and leave the in-progress heights of the first call
  and the committed state of the layout as they were.
\<close>

theorem C7_setHeight_idempotent:
  assumes "setHeight hdl height L = Some (Inr (hdl1, L1))"
  shows "hdl1 = hdl
    \<and> (\<exists>v. relayout L (anchor hdl) (js_sub height (initialHeight hdl)) False = Some (Inr (v, L1)))
    \<and> (\<exists>Ln. setHeight_times (Suc n) hdl height L = Some (Inr (hdl, Ln))
          \<and> heights Ln = heights L1 \<and> committedUnchanged L Ln)"
proof -
  from assms have "hdl1 = hdl"
    and "\<exists>v. relayout L (anchor hdl) (js_sub height (initialHeight hdl)) False = Some (Inr (v, L1))"
    by (auto simp: setHeight_def split: option.splits sum.splits prod.splits)
  with setHeight_times_again [OF assms committedUnchanged_refl] show ?thesis by simp
qed

text \<open>
  C8: \<open>setHeight\<close> never writes the committed heights, whether it returns or throws, so a
  drag that is dropped without \<open>finish\<close> leaves them as they were. \<open>finish\<close> returns its
  handle and copies the in-progress height of every section into the committed map, leaving
  the other entries alone; with distinct section ids the committed heights of the sections
  are then the in-progress heights, index by index. A relayout does not depend on the
  in-progress heights it finds: it starts from the committed ones.
\<close>

theorem C8_commit_only_on_finish:
  assumes "distinct (map sec_id (sections L))"
  shows "(\<exists>r. setHeight hdl height L = Some r \<and> sectionHeights (state_of r) = sectionHeights L)
    \<and> fst (finish hdl L) = hdl
    \<and> (\<forall>i<length (sections L).
          sectionHeights (snd (finish hdl L)) (sec_id (sections L ! i))
            = Some (js_nth (heights L) i))
    \<and> (\<forall>k. k \<notin> sec_id ` set (sections L)
          \<longrightarrow> sectionHeights (snd (finish hdl L)) k = sectionHeights L k)
    \<and> committedHeights (snd (finish hdl L)) = map (js_nth (heights L)) [0..<length (sections L)]
    \<and> relayout ((snd (finish hdl L))\<lparr>heights := hs\<rparr>) anc offset clamped
        = relayout (snd (finish hdl L)) anc offset clamped"
proof -
  obtain r where r: "relayout L (anchor hdl) (js_sub height (initialHeight hdl)) False = Some r"
    using relayout_total by blast
  from relayout_frame [OF r] have "sectionHeights (state_of r) = sectionHeights L"
    by (simp add: committedUnchanged_def)
  with r have "\<exists>r. setHeight hdl height L = Some r \<and> sectionHeights (state_of r) = sectionHeights L"
    by (cases r) (auto simp: setHeight_def)
  then show ?thesis
    using assms
    by (simp add: finish_def commitHeights_listed commitHeights_other committedHeights_commit
          relayout_heights)
qed

lemma exampleLayout_reached:
  "update exampleSections (Num 400) (newLayout Map.empty Map.empty) = Some (Inr ((), exampleLayout))"
  by (simp add: update_def newLayout_def applyNewSize_def applyOverflow.simps getAvailableHeight_def
     isCollapsed_def committedHeights_def js_get_def getMinHeight_def getMaxHeight_def sectionHeight_def
     clamp_def js_gt_def js_sub_def js_nth_def js_set_def applyHeights_def commitHeights_def handleHeight_def
     enumerate_eq_zip Let_def sectionsChanged_def exampleSections_def exampleLayout_def applyOverflow_step_def)

theorem C5_openHandle_unknown_id_witness:
  "''C'' \<notin> sec_id ` set (sections exampleLayout)
   \<and> openHandle exampleLayout ''C''
       = \<lparr> anchor = - 1, initialHeight = js_get (sectionHeights exampleLayout) ''C'' \<rparr>
   \<and> js_get (sectionHeights exampleLayout) ''C'' = Undefined
   \<and> setHeight (openHandle exampleLayout ''C'') (Num 100) exampleLayout
        = Some (Inl (TypeError, exampleLayout\<lparr>heights := committedHeights exampleLayout\<rparr>))
   \<and> finish (openHandle exampleLayout ''C'') exampleLayout
        = (openHandle exampleLayout ''C'', commitHeights exampleLayout)"
proof -
  have h: "''C'' \<notin> sec_id ` set (sections exampleLayout)"
    by (simp add: exampleLayout_def exampleSections_def)
  have "js_get (sectionHeights exampleLayout) ''C'' = Undefined"
    by (simp add: exampleLayout_def js_get_def)
  with C5_openHandle_unknown_id [OF h, of "Num 100"] h show ?thesis by blast
qed

theorem C5_counterexample:
  "(case update exampleSections (Num 400) (newLayout Map.empty Map.empty) of
      Some (Inr (_, L)) \<Rightarrow>
        ''C'' \<notin> sec_id ` set (sections L)
        \<and> anchor (openHandle L ''C'') = - 1
        \<and> initialHeight (openHandle L ''C'') = Undefined
        \<and> returned (Inr (finish (openHandle L ''C'') L) :: handle result)
    | _ \<Rightarrow> False)"
  by code_simp

theorem C7_setHeight_idempotent_witness:
  "\<exists>hdl1 L1. setHeight (openHandle exampleLayout ''A'') (Num 100) exampleLayout
       = Some (Inr (hdl1, L1))
     \<and> hdl1 = openHandle exampleLayout ''A''
     \<and> heights L1 = [Num 100, Num 299]
     \<and> (\<exists>Ln. setHeight_times (Suc 2) (openHandle exampleLayout ''A'') (Num 100) exampleLayout
            = Some (Inr (openHandle exampleLayout ''A'', Ln))
          \<and> heights Ln = heights L1 \<and> committedUnchanged exampleLayout Ln)"
proof -
  have "(case setHeight (openHandle exampleLayout ''A'') (Num 100) exampleLayout of
      Some (Inr (_, L1)) \<Rightarrow> heights L1 = [Num 100, Num 299] | _ \<Rightarrow> False)"
    by code_simp
  then obtain hdl1 L1 where
    s: "setHeight (openHandle exampleLayout ''A'') (Num 100) exampleLayout = Some (Inr (hdl1, L1))"
    and h: "heights L1 = [Num 100, Num 299]"
    by (auto split: option.splits sum.splits)
  from C7_setHeight_idempotent [OF s, of 2] s h show ?thesis by auto
qed

theorem C8_commit_only_on_finish_witness:
  "distinct (map sec_id (sections exampleLayout))
   \<and> (\<exists>r. setHeight (openHandle exampleLayout ''A'') (Num 100) exampleLayout = Some r
         \<and> sectionHeights (state_of r) = sectionHeights exampleLayout)
   \<and> committedHeights (snd (finish (openHandle exampleLayout ''A'') exampleLayout))
       = [Num (399 / 2), Num (399 / 2)]"
proof -
  have h: "distinct (map sec_id (sections exampleLayout))"
    by (simp add: exampleLayout_def exampleSections_def)
  have "map (js_nth (heights exampleLayout)) [0..<length (sections exampleLayout)]
      = [Num (399 / 2), Num (399 / 2)]"
    by code_simp
  with C8_commit_only_on_finish [OF h, of "openHandle exampleLayout ''A''" "Num 100"] h
  show ?thesis by simp
qed

section \<open>Calls that cannot throw\<close>

lemma step_returns:
  assumes "i < length (sections L)"
  shows "\<exists>ov' uncl' hs. applyOverflow_step i ov ops uncl L = Inr ((ov', uncl'), L\<lparr>heights := hs\<rparr>)
           \<and> set uncl' \<subseteq> insert i (set uncl)"
  using assms
  by (auto simp: applyOverflow_step_def Let_def getMinHeight_spec getMaxHeight_spec)

lemma loop_returns:
  assumes "\<forall>i\<in>set xs. i < length (sections L)"
  shows "\<exists>ov' uncl' L'. applyOverflow_loop blend xs ov ops uncl L = Inr ((ov', uncl'), L')
           \<and> set uncl' \<subseteq> set uncl \<union> set xs"
  using assms
proof (induction xs arbitrary: ov ops uncl L blend)
  case Nil
  then show ?case by simp
next
  case (Cons i rest)
  from Cons.prems have "i < length (sections L)" by simp
  from step_returns [OF this, of ov ops uncl] obtain ov1 uncl1 hs where
    s: "applyOverflow_step i ov ops uncl L = Inr ((ov1, uncl1), L\<lparr>heights := hs\<rparr>)"
    and sub: "set uncl1 \<subseteq> insert i (set uncl)" by blast
  from Cons.prems have "\<forall>i\<in>set rest. i < length (sections (L\<lparr>heights := hs\<rparr>))" by simp
  from Cons.IH [OF this] sub s show ?case
    by (auto split: if_splits) blast+
qed

lemma applyOverflow_returns:
  "\<forall>i\<in>set secs. i < length (sections L)
   \<Longrightarrow> \<exists>ov' L'. applyOverflow ov secs blend L = Some (Inr (ov', L'))"
proof (induction ov secs L rule: applyOverflow_induct [where blend = blend])
  case (pass ov secs L)
  from loop_returns [OF pass.prems, of blend ov "if blend then js_div ov (length secs) else ov" "[]"]
  obtain ov' uncl L' where
    l: "applyOverflow_loop blend secs ov (if blend then js_div ov (length secs) else ov) [] L
          = Inr ((ov', uncl), L')"
    and sub: "set uncl \<subseteq> set secs" by auto
  show ?case
  proof (cases "js_gt (js_abs ov') (Num 1) \<and> 0 < length uncl")
    case False
    from applyOverflow_stop [OF l False] show ?thesis by simp
  next
    case True
    then have g: "js_gt (js_abs ov') (Num 1)" "0 < length uncl" by auto
    from loop_frame [OF l] have "sections L' = sections L"
      by (simp add: onlyHeightsChanged_def)
    with sub pass.prems have "\<forall>i\<in>set uncl. i < length (sections L')" by auto
    from pass.IH [OF l g this] applyOverflow_rec [OF l g] show ?thesis by simp
  qed
qed

lemma applyNewSize_returns:
  "\<exists>ov L2. applyOverflow
       (js_neg (js_sub (getAvailableHeight L)
          (foldl (\<lambda>sum s. js_add sum (js_get (sectionHeights L) (sec_id s))) (Num 0) (sections L))))
       [0..<length (sections L)] True (L\<lparr>heights := committedHeights L\<rparr>) = Some (Inr (ov, L2))
     \<and> onlyHeightsChanged L L2
     \<and> applyNewSize L = Some (Inr ((), commitHeights (applyHeights L2)))"
proof -
  let ?ov = "js_neg (js_sub (getAvailableHeight L)
          (foldl (\<lambda>sum s. js_add sum (js_get (sectionHeights L) (sec_id s))) (Num 0) (sections L)))"
  have "\<forall>i\<in>set [0..<length (sections L)]. i < length (sections (L\<lparr>heights := committedHeights L\<rparr>))"
    by simp
  from applyOverflow_returns [OF this] obtain ov L2 where
    a: "applyOverflow ?ov [0..<length (sections L)] True (L\<lparr>heights := committedHeights L\<rparr>)
          = Some (Inr (ov, L2))" by blast
  from applyOverflow_frame [OF a] have "onlyHeightsChanged L L2"
    by (simp add: onlyHeightsChanged_def)
  with a show ?thesis by (simp add: applyNewSize_def Let_def)
qed

lemma applyHeights_frame [simp]:
  "sections (applyHeights L) = sections L"
  "collapsedState (applyHeights L) = collapsedState L"
  "availableHeight (applyHeights L) = availableHeight L"
  "sectionHeights (applyHeights L) = sectionHeights L"
  "heights (applyHeights L) = heights L"
  by (simp_all add: applyHeights_def)

lemma applyNewSize_frame:
  "\<exists>L'. applyNewSize L = Some (Inr ((), L')) \<and> sections L' = sections L
      \<and> collapsedState L' = collapsedState L \<and> availableHeight L' = availableHeight L"
  using applyNewSize_returns [of L] by (auto simp: onlyHeightsChanged_def)

section \<open>Seeding in \<open>update\<close>\<close>

lemma truthy_iff: "\<not> truthy v \<longleftrightarrow> v = Undefined \<or> v = Num 0 \<or> v = NaN"
  by (cases v) auto

lemma seedHeights_spec:
  assumes "distinct (map (\<lambda>p. sec_id (snd p)) items)" and "\<forall>(i, s)\<in>set items. i < length (sections L)"
  shows "\<exists>m'. seedHeights t items L = Inr (L\<lparr>sectionHeights := m'\<rparr>)
    \<and> (\<forall>(i, s)\<in>set items. m' (sec_id s) =
          (if truthy (js_get (sectionHeights L) (sec_id s)) then sectionHeights L (sec_id s)
           else Some (clamp (js_div t (length (sections L)))
                        (Num (spec_minHeight L i)) (Num (spec_maxHeight L i)))))
    \<and> (\<forall>k. k \<notin> (\<lambda>p. sec_id (snd p)) ` set items \<longrightarrow> m' k = sectionHeights L k)"
  using assms
proof (induction items arbitrary: L)
  case Nil
  show ?case by (intro exI [of _ "sectionHeights L"]) simp
next
  case (Cons p items)
  obtain i s where p: "p = (i, s)" by (cases p)
  from Cons.prems p have i: "i < length (sections L)"
    and notin: "sec_id s \<notin> (\<lambda>p. sec_id (snd p)) ` set items"
    and d: "distinct (map (\<lambda>p. sec_id (snd p)) items)" by auto
  define v where "v = (if truthy (js_get (sectionHeights L) (sec_id s)) then sectionHeights L (sec_id s)
           else Some (clamp (js_div t (length (sections L)))
                        (Num (spec_minHeight L i)) (Num (spec_maxHeight L i))))"
  define L1 where "L1 = L\<lparr>sectionHeights := (sectionHeights L)(sec_id s := v)\<rparr>"
  have L1: "L1 = (if truthy (js_get (sectionHeights L) (sec_id s)) then L
      else L\<lparr>sectionHeights := (sectionHeights L)(sec_id s \<mapsto>
            clamp (js_div t (length (sections L)))
              (Num (spec_minHeight L i)) (Num (spec_maxHeight L i)))\<rparr>)"
    by (simp add: L1_def v_def)
  from i have step: "seedHeights t (p # items) L = seedHeights t items L1"
    unfolding L1 by (simp add: p getMinHeight_spec getMaxHeight_spec)
  from Cons.prems(2) have "\<forall>(i, s)\<in>set items. i < length (sections L1)"
    by (auto simp: L1_def)
  from Cons.IH [OF d this] obtain m' where
    run: "seedHeights t items L1 = Inr (L1\<lparr>sectionHeights := m'\<rparr>)"
    and listed: "\<forall>(i, s)\<in>set items. m' (sec_id s) =
          (if truthy (js_get (sectionHeights L1) (sec_id s)) then sectionHeights L1 (sec_id s)
           else Some (clamp (js_div t (length (sections L1)))
                        (Num (spec_minHeight L1 i)) (Num (spec_maxHeight L1 i))))"
    and other: "\<forall>k. k \<notin> (\<lambda>p. sec_id (snd p)) ` set items \<longrightarrow> m' k = sectionHeights L1 k"
    by blast
  have same: "sectionHeights L1 k = sectionHeights L k" if "k \<noteq> sec_id s" for k
    using that by (simp add: L1_def)
  have "seedHeights t (p # items) L = Inr (L\<lparr>sectionHeights := m'\<rparr>)"
    using step run by (simp add: L1_def)
  moreover have "m' (sec_id s) = v"
    using other notin by (simp add: L1_def)
  moreover have "\<forall>(j, s')\<in>set items. m' (sec_id s') =
          (if truthy (js_get (sectionHeights L) (sec_id s')) then sectionHeights L (sec_id s')
           else Some (clamp (js_div t (length (sections L)))
                        (Num (spec_minHeight L j)) (Num (spec_maxHeight L j))))"
  proof (clarify)
    fix j s' assume js: "(j, s') \<in> set items"
    with notin have ne: "sec_id s' \<noteq> sec_id s" by force
    from listed js have "m' (sec_id s') =
          (if truthy (js_get (sectionHeights L1) (sec_id s')) then sectionHeights L1 (sec_id s')
           else Some (clamp (js_div t (length (sections L1)))
                        (Num (spec_minHeight L1 j)) (Num (spec_maxHeight L1 j))))" by blast
    with same [OF ne] show "m' (sec_id s') =
          (if truthy (js_get (sectionHeights L) (sec_id s')) then sectionHeights L (sec_id s')
           else Some (clamp (js_div t (length (sections L)))
                        (Num (spec_minHeight L j)) (Num (spec_maxHeight L j))))"
      by (simp add: js_get_def L1_def)
  qed
  moreover have "\<forall>k. k \<notin> (\<lambda>p. sec_id (snd p)) ` set (p # items) \<longrightarrow> m' k = sectionHeights L k"
    using other same by (auto simp: p)
  ultimately show ?case
    unfolding v_def p by (intro exI [of _ m']) simp
qed

lemma seedHeights_enumerate:
  assumes "distinct (map sec_id (sections L))"
  shows "\<exists>m'. seedHeights t (List.enumerate 0 (sections L)) L = Inr (L\<lparr>sectionHeights := m'\<rparr>)
    \<and> (\<forall>i<length (sections L). m' (sec_id (sections L ! i)) =
          (if truthy (js_get (sectionHeights L) (sec_id (sections L ! i)))
           then sectionHeights L (sec_id (sections L ! i))
           else Some (clamp (js_div t (length (sections L)))
                        (Num (spec_minHeight L i)) (Num (spec_maxHeight L i)))))
    \<and> (\<forall>k. k \<notin> sec_id ` set (sections L) \<longrightarrow> m' k = sectionHeights L k)"
proof -
  have d: "distinct (map (\<lambda>p. sec_id (snd p)) (List.enumerate 0 (sections L)))"
    using assms by (simp add: enumerate_eq_zip map_snd_zip_take flip: map_map [unfolded comp_def])
  have r: "\<forall>(i, s)\<in>set (List.enumerate 0 (sections L)). i < length (sections L)"
    by (auto simp: in_set_enumerate_eq)
  from seedHeights_spec [OF d r, of t] obtain m' where
    run: "seedHeights t (List.enumerate 0 (sections L)) L = Inr (L\<lparr>sectionHeights := m'\<rparr>)"
    and listed: "\<forall>(i, s)\<in>set (List.enumerate 0 (sections L)). m' (sec_id s) =
          (if truthy (js_get (sectionHeights L) (sec_id s)) then sectionHeights L (sec_id s)
           else Some (clamp (js_div t (length (sections L)))
                        (Num (spec_minHeight L i)) (Num (spec_maxHeight L i))))"
    and other: "\<forall>k. k \<notin> (\<lambda>p. sec_id (snd p)) ` set (List.enumerate 0 (sections L))
          \<longrightarrow> m' k = sectionHeights L k"
    by blast
  have ids: "(\<lambda>p. sec_id (snd p)) ` set (List.enumerate 0 (sections L)) = sec_id ` set (sections L)"
  proof -
    have "(\<lambda>p. sec_id (snd p)) ` set (List.enumerate 0 (sections L))
        = sec_id ` (snd ` set (List.enumerate 0 (sections L)))"
      by (simp add: image_image)
    also have "snd ` set (List.enumerate 0 (sections L)) = set (map snd (List.enumerate 0 (sections L)))"
      by (simp only: set_map)
    also have "map snd (List.enumerate 0 (sections L)) = sections L"
      by simp
    finally show ?thesis .
  qed
  have "\<forall>i<length (sections L). m' (sec_id (sections L ! i)) =
          (if truthy (js_get (sectionHeights L) (sec_id (sections L ! i)))
           then sectionHeights L (sec_id (sections L ! i))
           else Some (clamp (js_div t (length (sections L)))
                        (Num (spec_minHeight L i)) (Num (spec_maxHeight L i))))"
  proof (intro allI impI)
    fix i assume "i < length (sections L)"
    then have "(i, sections L ! i) \<in> set (List.enumerate 0 (sections L))"
      by (simp add: in_set_enumerate_eq)
    with listed show "m' (sec_id (sections L ! i)) =
          (if truthy (js_get (sectionHeights L) (sec_id (sections L ! i)))
           then sectionHeights L (sec_id (sections L ! i))
           else Some (clamp (js_div t (length (sections L)))
                        (Num (spec_minHeight L i)) (Num (spec_maxHeight L i))))"
      by blast
  qed
  with run other ids show ?thesis by auto
qed

lemma js_eq_finite: "isFinite v \<Longrightarrow> js_eq v w \<longleftrightarrow> v = w"
  by (cases v; cases w) auto

lemma sectionsChanged_iff: "sectionsChanged xs ys \<longleftrightarrow> xs \<noteq> ys"
  unfolding sectionsChanged_def by (induction xs ys rule: list_induct2') auto

lemma update_unchanged:
  "\<not> (isFinite v \<and> v \<noteq> availableHeight L) \<Longrightarrow> secs = sections L
   \<Longrightarrow> update secs v L = Some (Inr ((), L))"
  by (auto simp: update_def Let_def js_eq_finite sectionsChanged_iff)

lemma update_changed:
  assumes "(isFinite v \<and> v \<noteq> availableHeight L) \<or> secs \<noteq> sections L"
  shows "update secs v L =
     (case seedHeights
             (getAvailableHeight
                (L\<lparr>availableHeight := (if isFinite v then v else availableHeight L), sections := secs\<rparr>))
             (List.enumerate 0 secs)
             (L\<lparr>availableHeight := (if isFinite v then v else availableHeight L), sections := secs\<rparr>) of
        Inl e \<Rightarrow> Some (Inl e)
      | Inr L3 \<Rightarrow> applyNewSize L3)"
proof (cases "isFinite v \<and> v \<noteq> availableHeight L")
  case True
  then show ?thesis
    by (simp add: update_def Let_def js_eq_finite)
next
  case False
  with assms have ne: "secs \<noteq> sections L" by simp
  from False have same: "L\<lparr>availableHeight := (if isFinite v then v else availableHeight L)\<rparr> = L"
    by auto
  from False have "\<not> (isFinite v \<and> \<not> js_eq v (availableHeight L))"
    by (auto simp: js_eq_finite)
  with ne show ?thesis
    unfolding same by (auto simp add: update_def Let_def sectionsChanged_iff)
qed

lemma seedHeights_returns:
  "\<forall>(i, s)\<in>set items. i < length (sections L)
   \<Longrightarrow> \<exists>m'. seedHeights t items L = Inr (L\<lparr>sectionHeights := m'\<rparr>)"
proof (induction items arbitrary: L)
  case Nil
  show ?case by (intro exI [of _ "sectionHeights L"]) simp
next
  case (Cons p items)
  obtain i s where p: "p = (i, s)" by (cases p)
  with Cons.prems have i: "i < length (sections L)" by simp
  show ?case
  proof (cases "truthy (js_get (sectionHeights L) (sec_id s))")
    case True
    with Cons.IH [of L] Cons.prems p show ?thesis by simp
  next
    case False
    define L1 where "L1 = L\<lparr>sectionHeights := (sectionHeights L)(sec_id s \<mapsto>
            clamp (js_div t (length (sections L)))
              (Num (spec_minHeight L i)) (Num (spec_maxHeight L i)))\<rparr>"
    from Cons.prems have "\<forall>(i, s)\<in>set items. i < length (sections L1)"
      by (auto simp: L1_def)
    from Cons.IH [OF this] obtain m' where
      "seedHeights t items L1 = Inr (L1\<lparr>sectionHeights := m'\<rparr>)" by blast
    with False i p show ?thesis
      by (intro exI [of _ m']) (simp add: L1_def getMinHeight_spec getMaxHeight_spec)
  qed
qed

text \<open>
  C10: the seeding of \<open>update\<close> tests the stored height by truthiness. With distinct
  section ids, a listed section whose stored height is \<^verbatim>\<open>undefined\<close> (no entry, or an
  entry that holds it), 0 or NaN gets the even share of the computed available height,
  clamped to its bounds, even though the key may be present; every other stored height,
  and every entry of a section that is not listed, stays as it is.
\<close>

theorem C10_seeding_by_truthiness:
  assumes "distinct (map sec_id (sections L))"
  shows "\<exists>m'. seedHeights (getAvailableHeight L) (List.enumerate 0 (sections L)) L
          = Inr (L\<lparr>sectionHeights := m'\<rparr>)
    \<and> (\<forall>i<length (sections L). m' (sec_id (sections L ! i)) =
          (if js_get (sectionHeights L) (sec_id (sections L ! i)) = Undefined
              \<or> js_get (sectionHeights L) (sec_id (sections L ! i)) = Num 0
              \<or> js_get (sectionHeights L) (sec_id (sections L ! i)) = NaN
           then Some (clamp (js_div (getAvailableHeight L) (length (sections L)))
                        (Num (spec_minHeight L i)) (Num (spec_maxHeight L i)))
           else sectionHeights L (sec_id (sections L ! i))))
    \<and> (\<forall>k. k \<notin> sec_id ` set (sections L) \<longrightarrow> m' k = sectionHeights L k)"
proof -
  from seedHeights_enumerate [OF assms, of "getAvailableHeight L"] obtain m' where
    "seedHeights (getAvailableHeight L) (List.enumerate 0 (sections L)) L
       = Inr (L\<lparr>sectionHeights := m'\<rparr>)"
    and "\<forall>i<length (sections L). m' (sec_id (sections L ! i)) =
          (if truthy (js_get (sectionHeights L) (sec_id (sections L ! i)))
           then sectionHeights L (sec_id (sections L ! i))
           else Some (clamp (js_div (getAvailableHeight L) (length (sections L)))
                        (Num (spec_minHeight L i)) (Num (spec_maxHeight L i))))"
    and "\<forall>k. k \<notin> sec_id ` set (sections L) \<longrightarrow> m' k = sectionHeights L k"
    by blast
  then show ?thesis
    by (intro exI [of _ m']) (auto simp: truthy_iff)
qed

lemma update_seeds:
  assumes "distinct (map sec_id secs)"
    and "(isFinite v \<and> v \<noteq> availableHeight L) \<or> secs \<noteq> sections L"
  shows "\<exists>m' L2. L2 = L\<lparr>availableHeight := (if isFinite v then v else availableHeight L),
                          sections := secs\<rparr>
    \<and> update secs v L = applyNewSize (L2\<lparr>sectionHeights := m'\<rparr>)
    \<and> (\<forall>i<length secs. m' (sec_id (secs ! i)) =
          (if truthy (js_get (sectionHeights L) (sec_id (secs ! i)))
           then sectionHeights L (sec_id (secs ! i))
           else Some (clamp (js_div (getAvailableHeight L2) (length secs))
                        (Num (spec_minHeight L2 i)) (Num (spec_maxHeight L2 i)))))
    \<and> (\<forall>k. k \<notin> sec_id ` set secs \<longrightarrow> m' k = sectionHeights L k)"
proof -
  define L2 where "L2 = L\<lparr>availableHeight := (if isFinite v then v else availableHeight L),
                          sections := secs\<rparr>"
  from assms(1) have d: "distinct (map sec_id (sections L2))" by (simp add: L2_def)
  from seedHeights_enumerate [OF d, of "getAvailableHeight L2"] obtain m' where
    run: "seedHeights (getAvailableHeight L2) (List.enumerate 0 (sections L2)) L2
            = Inr (L2\<lparr>sectionHeights := m'\<rparr>)"
    and listed: "\<forall>i<length (sections L2). m' (sec_id (sections L2 ! i)) =
          (if truthy (js_get (sectionHeights L2) (sec_id (sections L2 ! i)))
           then sectionHeights L2 (sec_id (sections L2 ! i))
           else Some (clamp (js_div (getAvailableHeight L2) (length (sections L2)))
                        (Num (spec_minHeight L2 i)) (Num (spec_maxHeight L2 i))))"
    and other: "\<forall>k. k \<notin> sec_id ` set (sections L2) \<longrightarrow> m' k = sectionHeights L2 k"
    by blast
  have s: "sections L2 = secs" "sectionHeights L2 = sectionHeights L" by (simp_all add: L2_def)
  from update_changed [OF assms(2), folded L2_def] run s
  have "update secs v L = applyNewSize (L2\<lparr>sectionHeights := m'\<rparr>)" by simp
  with listed other show ?thesis
    unfolding s L2_def [symmetric] by blast
qed

text \<open>
  C4 (as amended): when the finite new available height or the section list differs from
  the stored one, \<open>update\<close> adopts both and runs the full redistribution on a layout in
  which every listed section with a falsy stored height has been seeded with
  \<open>clamp (getAvailableHeight / sectionCount) min max\<close>, where \<open>getAvailableHeight\<close> is the
  available height less one handle height per gap between sections that are not
  collapsed; a truthy stored height is the starting point as it is.
\<close>

theorem C4_update_seeds_then_redistributes:
  assumes "distinct (map sec_id secs)"
    and "(isFinite v \<and> v \<noteq> availableHeight L) \<or> secs \<noteq> sections L"
  shows "\<exists>m' L2. L2 = L\<lparr>availableHeight := (if isFinite v then v else availableHeight L),
                          sections := secs\<rparr>
    \<and> update secs v L = applyNewSize (L2\<lparr>sectionHeights := m'\<rparr>)
    \<and> (\<forall>i<length secs. m' (sec_id (secs ! i)) =
          (if truthy (js_get (sectionHeights L) (sec_id (secs ! i)))
           then sectionHeights L (sec_id (secs ! i))
           else Some (clamp (js_div (getAvailableHeight L2) (length secs))
                        (Num (spec_minHeight L2 i)) (Num (spec_maxHeight L2 i)))))
    \<and> (\<forall>k. k \<notin> sec_id ` set secs \<longrightarrow> m' k = sectionHeights L k)"
  using update_seeds [OF assms] .

text \<open>
  C6: what a non-finite available height does. \<open>setAvailableHeight\<close> stores whatever it is
  given and redistributes with it; \<open>update\<close> leaves the stored available height alone,
  returns, and has the section list it was given.
\<close>

theorem C6_nonfinite_availableHeight:
  assumes "\<not> isFinite v"
  shows "(\<exists>L'. setAvailableHeight v L = Some (Inr ((), L')) \<and> availableHeight L' = v)
    \<and> (\<exists>L'. update secs v L = Some (Inr ((), L')) \<and> availableHeight L' = availableHeight L
          \<and> sections L' = secs)"
proof -
  have a: "\<exists>L'. setAvailableHeight v L = Some (Inr ((), L')) \<and> availableHeight L' = v"
    using applyNewSize_frame [of "L\<lparr>availableHeight := v\<rparr>"]
    by (auto simp: setAvailableHeight_def)
  have b: "\<exists>L'. update secs v L = Some (Inr ((), L')) \<and> availableHeight L' = availableHeight L
          \<and> sections L' = secs"
  proof (cases "secs = sections L")
    case True
    with assms update_unchanged [of v L secs] show ?thesis by simp
  next
    case False
    define L2 where "L2 = L\<lparr>sections := secs\<rparr>"
    have "\<forall>(i, s)\<in>set (List.enumerate 0 secs). i < length (sections L2)"
      by (auto simp: in_set_enumerate_eq L2_def)
    from seedHeights_returns [OF this] obtain m' where
      seed: "seedHeights (getAvailableHeight L2) (List.enumerate 0 secs) L2
               = Inr (L2\<lparr>sectionHeights := m'\<rparr>)" by blast
    from assms False have "update secs v L = applyNewSize (L2\<lparr>sectionHeights := m'\<rparr>)"
      using update_changed [of v L secs] seed by (simp add: L2_def)
    with applyNewSize_frame [of "L2\<lparr>sectionHeights := m'\<rparr>"] show ?thesis
      by (auto simp: L2_def)
  qed
  from a b show ?thesis by simp
qed

theorem C10_seeding_by_truthiness_witness:
  "distinct (map sec_id (sections storedLayout))
   \<and> sectionHeights storedLayout ''A'' = Some (Num 0)
   \<and> (\<exists>m'. seedHeights (getAvailableHeight storedLayout)
              (List.enumerate 0 (sections storedLayout)) storedLayout
            = Inr (storedLayout\<lparr>sectionHeights := m'\<rparr>)
          \<and> m' ''A'' = Some (Num (399 / 2)) \<and> m' ''B'' = Some (Num 120)
          \<and> m' ''C'' = None)"
proof -
  have h: "distinct (map sec_id (sections storedLayout))"
    by (simp add: storedLayout_def exampleSections_def)
  have s: "sections storedLayout ! 0 = \<lparr>sec_id = ''A'', sec_count = 3\<rparr>"
    "sections storedLayout ! Suc 0 = \<lparr>sec_id = ''B'', sec_count = 5\<rparr>"
    "length (sections storedLayout) = 2"
    "sec_id ` set (sections storedLayout) = {''A'', ''B''}"
    by (simp_all add: storedLayout_def exampleSections_def)
  have v: "sectionHeights storedLayout ''A'' = Some (Num 0)"
    "sectionHeights storedLayout ''B'' = Some (Num 120)"
    "sectionHeights storedLayout ''C'' = None"
    by (simp_all add: storedLayout_def newLayout_def)
  have c: "clamp (js_div (getAvailableHeight storedLayout) 2)
       (Num (spec_minHeight storedLayout 0)) (Num (spec_maxHeight storedLayout 0)) = Num (399 / 2)"
    by code_simp
  from C10_seeding_by_truthiness [OF h] obtain m' where
    run: "seedHeights (getAvailableHeight storedLayout)
              (List.enumerate 0 (sections storedLayout)) storedLayout
            = Inr (storedLayout\<lparr>sectionHeights := m'\<rparr>)"
    and listed: "\<forall>i<length (sections storedLayout). m' (sec_id (sections storedLayout ! i)) =
          (if js_get (sectionHeights storedLayout) (sec_id (sections storedLayout ! i)) = Undefined
              \<or> js_get (sectionHeights storedLayout) (sec_id (sections storedLayout ! i)) = Num 0
              \<or> js_get (sectionHeights storedLayout) (sec_id (sections storedLayout ! i)) = NaN
           then Some (clamp (js_div (getAvailableHeight storedLayout) (length (sections storedLayout)))
                        (Num (spec_minHeight storedLayout i)) (Num (spec_maxHeight storedLayout i)))
           else sectionHeights storedLayout (sec_id (sections storedLayout ! i)))"
    and other: "\<forall>k. k \<notin> sec_id ` set (sections storedLayout) \<longrightarrow> m' k = sectionHeights storedLayout k"
    by blast
  from listed [rule_format, of 0] have "m' ''A'' = Some (Num (399 / 2))"
    by (simp add: s v c js_get_def)
  moreover from listed [rule_format, of 1] have "m' ''B'' = Some (Num 120)"
    by (simp add: s v js_get_def)
  moreover from other [rule_format, of "''C''"] have "m' ''C'' = None"
    by (simp add: s v)
  ultimately show ?thesis using h v run by blast
qed

theorem C4_counterexample:
  "(case seedHeights (getAvailableHeight storedLayout)
           (List.enumerate 0 (sections storedLayout)) storedLayout of
      Inr L3 \<Rightarrow>
        sectionHeights storedLayout ''A'' = Some (Num 0)
        \<and> sectionHeights L3 ''A'' = Some (Num (399 / 2))
        \<and> clamp (js_div (availableHeight storedLayout) (length (sections storedLayout)))
            (Num (spec_minHeight storedLayout 0)) (Num (spec_maxHeight storedLayout 0)) = Num 200
    | Inl e \<Rightarrow> False)
   \<and> (case update exampleSections (Num 400) (newLayout [''A'' \<mapsto> Num 0, ''B'' \<mapsto> Num 120] Map.empty) of
        Some (Inr (_, L')) \<Rightarrow> committedHeights L' = [Num (957 / 4), Num (639 / 4)]
      | _ \<Rightarrow> False)"
  by code_simp

theorem C4_update_seeds_then_redistributes_witness:
  "distinct (map sec_id exampleSections)
   \<and> ((isFinite (Num 400)
         \<and> Num 400 \<noteq> availableHeight (newLayout [''A'' \<mapsto> Num 0, ''B'' \<mapsto> Num 120] Map.empty))
       \<or> exampleSections \<noteq> sections (newLayout [''A'' \<mapsto> Num 0, ''B'' \<mapsto> Num 120] Map.empty))
   \<and> (\<exists>m'. update exampleSections (Num 400) (newLayout [''A'' \<mapsto> Num 0, ''B'' \<mapsto> Num 120] Map.empty)
            = applyNewSize (storedLayout\<lparr>sectionHeights := m'\<rparr>)
          \<and> m' ''A'' = Some (Num (399 / 2)) \<and> m' ''B'' = Some (Num 120))"
proof -
  let ?L = "newLayout [''A'' \<mapsto> Num 0, ''B'' \<mapsto> Num 120] Map.empty"
  have h1: "distinct (map sec_id exampleSections)"
    by (simp add: exampleSections_def)
  have h2: "(isFinite (Num 400) \<and> Num 400 \<noteq> availableHeight ?L) \<or> exampleSections \<noteq> sections ?L"
    by (simp add: newLayout_def)
  have L2: "?L\<lparr>availableHeight := (if isFinite (Num 400) then Num 400 else availableHeight ?L),
               sections := exampleSections\<rparr> = storedLayout"
    by (simp add: storedLayout_def)
  have s: "exampleSections ! 0 = \<lparr>sec_id = ''A'', sec_count = 3\<rparr>"
    "exampleSections ! Suc 0 = \<lparr>sec_id = ''B'', sec_count = 5\<rparr>"
    "length exampleSections = 2"
    by (simp_all add: exampleSections_def)
  have v: "sectionHeights ?L ''A'' = Some (Num 0)" "sectionHeights ?L ''B'' = Some (Num 120)"
    by (simp_all add: newLayout_def)
  have c: "clamp (js_div (getAvailableHeight storedLayout) 2)
       (Num (spec_minHeight storedLayout 0)) (Num (spec_maxHeight storedLayout 0)) = Num (399 / 2)"
    by code_simp
  from C4_update_seeds_then_redistributes [OF h1 h2] obtain m' where
    run: "update exampleSections (Num 400) ?L = applyNewSize (storedLayout\<lparr>sectionHeights := m'\<rparr>)"
    and listed: "\<forall>i<length exampleSections. m' (sec_id (exampleSections ! i)) =
          (if truthy (js_get (sectionHeights ?L) (sec_id (exampleSections ! i)))
           then sectionHeights ?L (sec_id (exampleSections ! i))
           else Some (clamp (js_div (getAvailableHeight storedLayout) (length exampleSections))
                        (Num (spec_minHeight storedLayout i)) (Num (spec_maxHeight storedLayout i))))"
    unfolding L2 by blast
  from listed [rule_format, of 0] have "m' ''A'' = Some (Num (399 / 2))"
    by (simp add: s v c js_get_def)
  moreover from listed [rule_format, of 1] have "m' ''B'' = Some (Num 120)"
    by (simp add: s v js_get_def)
  ultimately show ?thesis using h1 h2 run by blast
qed

theorem C6_nonfinite_availableHeight_witness:
  "\<not> isFinite NaN
   \<and> (\<exists>L'. setAvailableHeight NaN exampleLayout = Some (Inr ((), L'))
         \<and> availableHeight L' = NaN \<and> committedHeights L' = [NaN, NaN])
   \<and> (\<exists>L'. update [\<lparr>sec_id = ''A'', sec_count = 3\<rparr>] NaN exampleLayout = Some (Inr ((), L'))
         \<and> availableHeight L' = availableHeight exampleLayout
         \<and> sections L' = [\<lparr>sec_id = ''A'', sec_count = 3\<rparr>])"
proof -
  have h: "\<not> isFinite NaN" by simp
  have e: "(case setAvailableHeight NaN exampleLayout of
      Some (Inr (_, L')) \<Rightarrow> committedHeights L' = [NaN, NaN] | _ \<Rightarrow> False)"
    by code_simp
  from C6_nonfinite_availableHeight [OF h, of exampleLayout "[\<lparr>sec_id = ''A'', sec_count = 3\<rparr>]"] e h
  show ?thesis by auto
qed

section \<open>The redistribution on finite heights\<close>

lemma clamp_Num [simp]: "clamp (Num x) (Num lo) (Num hi) = Num (clampR x lo hi)"
  by (simp add: clamp_def clampR_def js_gt_def)

lemma clampR_bounds: "lo \<le> hi \<Longrightarrow> lo \<le> clampR x lo hi \<and> clampR x lo hi \<le> hi"
  by (simp add: clampR_def)

lemma clampR_at_bound: "clampR x lo hi \<noteq> x \<Longrightarrow> clampR x lo hi = lo \<or> clampR x lo hi = hi"
  by (simp add: clampR_def split: if_splits)

lemma js_nth_map_Num [simp]: "i < length hs \<Longrightarrow> js_nth (map Num hs) i = Num (hs ! i)"
  by (simp add: js_nth_def)

lemma js_set_map_Num [simp]:
  "i < length hs \<Longrightarrow> js_set (map Num hs) i (Num c) = map Num (hs[i := c])"
  by (simp add: js_set_def map_update)

lemma step_finite:
  assumes "heights L = map Num hs" and "length hs = length (sections L)" and "i < length hs"
  shows "applyOverflow_step i (Num ov) (Num q) uncl L =
     (let c = clampR (hs ! i - q) (spec_minHeight L i) (spec_maxHeight L i)
      in Inr ((Num (ov - (hs ! i - c)), (if c = hs ! i - q then uncl @ [i] else uncl)),
              L\<lparr>heights := map Num (hs[i := c])\<rparr>))"
  using assms
  by (simp add: applyOverflow_step_def Let_def getMinHeight_spec getMaxHeight_spec)

lemma loop_finite:
  assumes "heights L = map Num hs" and "length hs = length (sections L)"
    and "\<forall>i\<in>set xs. i < length hs"
  shows "applyOverflow_loop blend xs (Num ov) (Num q) uncl L =
     (case finite_loop blend (spec_minHeight L) (spec_maxHeight L) xs ov q uncl hs of
        ((ov', uncl'), hs') \<Rightarrow> Inr ((Num ov', uncl'), L\<lparr>heights := map Num hs'\<rparr>))"
  using assms
proof (induction xs arbitrary: ov q uncl hs L blend)
  case Nil
  then show ?case by simp
next
  case (Cons i rest)
  define c where "c = clampR (hs ! i - q) (spec_minHeight L i) (spec_maxHeight L i)"
  define L1 where "L1 = L\<lparr>heights := map Num (hs[i := c])\<rparr>"
  define ov1 where "ov1 = ov - (hs ! i - c)"
  define uncl1 where "uncl1 = (if c = hs ! i - q then uncl @ [i] else uncl)"
  from Cons.prems have i: "i < length hs" by simp
  have step: "applyOverflow_step i (Num ov) (Num q) uncl L = Inr ((Num ov1, uncl1), L1)"
    using step_finite [OF Cons.prems(1,2) i]
    by (simp add: c_def L1_def ov1_def uncl1_def Let_def)
  have pre: "heights L1 = map Num (hs[i := c])" "length (hs[i := c]) = length (sections L1)"
    "\<forall>j\<in>set rest. j < length (hs[i := c])"
    using Cons.prems by (simp_all add: L1_def)
  have L1: "L1\<lparr>heights := x\<rparr> = L\<lparr>heights := x\<rparr>" for x by (simp add: L1_def)
  have b: "spec_minHeight L1 = spec_minHeight L" "spec_maxHeight L1 = spec_maxHeight L"
    by (auto simp: L1_def)
  note IH = Cons.IH [OF pre, unfolded b L1]
  have fin: "finite_loop blend (spec_minHeight L) (spec_maxHeight L) (i # rest) ov q uncl hs =
      (if \<not> blend then
           (if \<bar>ov1\<bar> < 1 then ((ov1, uncl1), hs[i := c])
            else finite_loop blend (spec_minHeight L) (spec_maxHeight L) rest ov1 ov1 uncl1 (hs[i := c]))
         else finite_loop blend (spec_minHeight L) (spec_maxHeight L) rest ov1 q uncl1 (hs[i := c]))"
    by (simp add: Let_def c_def ov1_def uncl1_def)
  show ?case
  proof (cases "\<not> blend \<and> \<bar>ov1\<bar> < 1")
    case True
    then show ?thesis
      unfolding fin by (simp add: step) (simp add: L1_def)
  next
    case False
    then show ?thesis
      unfolding fin by (auto simp add: step IH)
  qed
qed

subsection \<open>What the loop on finite heights yields\<close>

lemma finite_loop_length:
  "finite_loop blend lo hi xs ov q uncl hs = ((ov', uncl'), hs') \<Longrightarrow> length hs' = length hs"
  by (induction xs arbitrary: ov q uncl hs) (auto simp: Let_def split: if_splits)

lemma sum_list_upd:
  fixes xs :: "rat list"
  shows "i < length xs \<Longrightarrow> sum_list (xs[i := c]) = sum_list xs + c - xs ! i"
proof (induction xs arbitrary: i)
  case Nil
  then show ?case by simp
next
  case (Cons x xs)
  then show ?case by (cases i) auto
qed

lemma finite_loop_Cons:
  "finite_loop blend lo hi (i # rest) ov q uncl hs =
     (if \<not> blend \<and> \<bar>ov - (hs ! i - clampR (hs ! i - q) (lo i) (hi i))\<bar> < 1
      then ((ov - (hs ! i - clampR (hs ! i - q) (lo i) (hi i)),
             if clampR (hs ! i - q) (lo i) (hi i) = hs ! i - q then uncl @ [i] else uncl),
            hs[i := clampR (hs ! i - q) (lo i) (hi i)])
      else finite_loop blend lo hi rest (ov - (hs ! i - clampR (hs ! i - q) (lo i) (hi i)))
             (if blend then q else ov - (hs ! i - clampR (hs ! i - q) (lo i) (hi i)))
             (if clampR (hs ! i - q) (lo i) (hi i) = hs ! i - q then uncl @ [i] else uncl)
             (hs[i := clampR (hs ! i - q) (lo i) (hi i)]))"
  by (simp add: Let_def)

lemma finite_loop_sum:
  "finite_loop blend lo hi xs ov q uncl hs = ((ov', uncl'), hs') \<Longrightarrow> \<forall>i\<in>set xs. i < length hs
   \<Longrightarrow> sum_list hs' - ov' = sum_list hs - ov"
proof (induction xs arbitrary: ov q uncl hs)
  case Nil
  then show ?case by simp
next
  case (Cons i rest)
  define c where "c = clampR (hs ! i - q) (lo i) (hi i)"
  from Cons.prems(2) have i: "i < length hs" by simp
  then have s: "sum_list (hs[i := c]) = sum_list hs + c - hs ! i"
    by (rule sum_list_upd)
  from Cons.prems(2) have r: "\<forall>j\<in>set rest. j < length (hs[i := c])" by simp
  show ?case
  proof (cases "\<not> blend \<and> \<bar>ov - (hs ! i - c)\<bar> < 1")
    case True
    with Cons.prems(1) have "ov' = ov - (hs ! i - c)" "hs' = hs[i := c]"
      unfolding finite_loop_Cons c_def [symmetric] by simp_all
    with s show ?thesis by simp
  next
    case False
    with Cons.prems(1) obtain q1 uncl1 where
      "finite_loop blend lo hi rest (ov - (hs ! i - c)) q1 uncl1 (hs[i := c]) = ((ov', uncl'), hs')"
      unfolding finite_loop_Cons c_def [symmetric] by (simp split: if_splits)
    from Cons.IH [OF this r] s show ?thesis by simp
  qed
qed

lemma finite_loop_frame:
  "finite_loop blend lo hi xs ov q uncl hs = ((ov', uncl'), hs') \<Longrightarrow> j \<notin> set xs
   \<Longrightarrow> hs' ! j = hs ! j"
proof (induction xs arbitrary: ov q uncl hs)
  case Nil
  then show ?case by simp
next
  case (Cons i rest)
  from Cons.prems(2) have "j \<noteq> i" "j \<notin> set rest" by auto
  with Cons.prems(1) Cons.IH [where hs = "hs[i := clampR (hs ! i - q) (lo i) (hi i)]"]
  show ?case
    by (auto simp: Let_def split: if_splits)
qed

lemma finite_loop_bounds:
  "finite_loop blend lo hi xs ov q uncl hs = ((ov', uncl'), hs') \<Longrightarrow> \<forall>i. lo i \<le> hi i
   \<Longrightarrow> j < length hs \<Longrightarrow> hs' ! j = hs ! j \<or> (lo j \<le> hs' ! j \<and> hs' ! j \<le> hi j)"
proof (induction xs arbitrary: ov q uncl hs)
  case Nil
  then show ?case by simp
next
  case (Cons i rest)
  define c where "c = clampR (hs ! i - q) (lo i) (hi i)"
  from Cons.prems(2) have cb: "lo i \<le> c \<and> c \<le> hi i"
    by (simp add: c_def clampR_bounds)
  have upd: "hs[i := c] ! j = hs ! j \<or> (lo j \<le> hs[i := c] ! j \<and> hs[i := c] ! j \<le> hi j)"
    using cb Cons.prems(3) by (cases "j = i") auto
  from Cons.prems(3) have j: "j < length (hs[i := c])" by simp
  show ?case
  proof (cases "\<not> blend \<and> \<bar>ov - (hs ! i - c)\<bar> < 1")
    case True
    with Cons.prems(1) have "hs' = hs[i := c]"
      unfolding finite_loop_Cons c_def [symmetric] by simp
    with upd show ?thesis by simp
  next
    case False
    with Cons.prems(1) obtain ov1 q1 uncl1 where
      "finite_loop blend lo hi rest ov1 q1 uncl1 (hs[i := c]) = ((ov', uncl'), hs')"
      unfolding finite_loop_Cons c_def [symmetric] by (simp split: if_splits)
    from Cons.IH [OF this Cons.prems(2) j] upd show ?thesis by auto
  qed
qed

lemma finite_loop_unclamped:
  "finite_loop blend lo hi xs ov q uncl hs = ((ov', uncl'), hs')
   \<Longrightarrow> set uncl \<subseteq> set uncl' \<and> set uncl' \<subseteq> set uncl \<union> set xs
       \<and> (distinct (uncl @ xs) \<longrightarrow> distinct uncl')"
proof (induction xs arbitrary: ov q uncl hs)
  case Nil
  then show ?case by simp
next
  case (Cons i rest)
  define c where "c = clampR (hs ! i - q) (lo i) (hi i)"
  define uncl1 where "uncl1 = (if c = hs ! i - q then uncl @ [i] else uncl)"
  have u1: "set uncl \<subseteq> set uncl1" "set uncl1 \<subseteq> insert i (set uncl)"
    "distinct (uncl @ i # rest) \<longrightarrow> distinct (uncl1 @ rest)"
    by (auto simp: uncl1_def)
  show ?case
  proof (cases "\<not> blend \<and> \<bar>ov - (hs ! i - c)\<bar> < 1")
    case True
    with Cons.prems have "uncl' = uncl1"
      by (auto simp: Let_def c_def [symmetric] uncl1_def)
    with u1 show ?thesis by auto
  next
    case False
    with Cons.prems have "finite_loop blend lo hi rest (ov - (hs ! i - c))
        (if blend then q else ov - (hs ! i - c)) uncl1 (hs[i := c]) = ((ov', uncl'), hs')"
      by (auto simp: Let_def c_def [symmetric] uncl1_def split: if_splits)
    from Cons.IH [OF this] u1 show ?thesis by auto
  qed
qed

lemma finite_loop_blend:
  "finite_loop True lo hi xs ov q uncl hs = ((ov', uncl'), hs') \<Longrightarrow> \<forall>i. lo i \<le> hi i
   \<Longrightarrow> \<forall>i\<in>set xs. i < length hs \<Longrightarrow> distinct xs \<Longrightarrow> j \<in> set xs
   \<Longrightarrow> lo j \<le> hs' ! j \<and> hs' ! j \<le> hi j
       \<and> (j \<in> set uncl' \<or> hs' ! j = lo j \<or> hs' ! j = hi j)"
proof (induction xs arbitrary: ov uncl hs)
  case Nil
  then show ?case by simp
next
  case (Cons i rest)
  define c where "c = clampR (hs ! i - q) (lo i) (hi i)"
  define uncl1 where "uncl1 = (if c = hs ! i - q then uncl @ [i] else uncl)"
  from Cons.prems(1) have run:
    "finite_loop True lo hi rest (ov - (hs ! i - c)) q uncl1 (hs[i := c]) = ((ov', uncl'), hs')"
    by (simp add: Let_def c_def [symmetric] uncl1_def)
  from Cons.prems(3) have r: "\<forall>k\<in>set rest. k < length (hs[i := c])" and i: "i < length hs"
    by simp_all
  from Cons.prems(4) have d: "distinct rest" and notin: "i \<notin> set rest" by simp_all
  show ?case
  proof (cases "j = i")
    case False
    with Cons.prems(5) have "j \<in> set rest" by simp
    from Cons.IH [OF run Cons.prems(2) r d this] show ?thesis .
  next
    case True
    from finite_loop_frame [OF run notin] i have v: "hs' ! i = c" by simp
    from Cons.prems(2) have cb: "lo i \<le> c \<and> c \<le> hi i"
      by (simp add: c_def clampR_bounds)
    have "i \<in> set uncl1 \<or> c = lo i \<or> c = hi i"
      using clampR_at_bound [of "hs ! i - q" "lo i" "hi i"] by (auto simp: uncl1_def c_def)
    moreover from finite_loop_unclamped [OF run] have "set uncl1 \<subseteq> set uncl'" by simp
    ultimately show ?thesis using True v cb by auto
  qed
qed

lemma js_gt_Num [simp]: "js_gt (Num a) (Num b) \<longleftrightarrow> b < a"
  by (simp add: js_gt_def)

lemma applyOverflow_finite_aux:
  "ov = Num w \<Longrightarrow> heights L = map Num hs \<Longrightarrow> length hs = length (sections L)
   \<Longrightarrow> \<forall>i\<in>set secs. i < length hs
   \<Longrightarrow> \<exists>w' hs'. applyOverflow ov secs blend L = Some (Inr (Num w', L\<lparr>heights := map Num hs'\<rparr>))
        \<and> length hs' = length hs
        \<and> sum_list hs' - w' = sum_list hs - w
        \<and> (\<forall>j. j \<notin> set secs \<longrightarrow> hs' ! j = hs ! j)
        \<and> (\<forall>j<length hs. hs' ! j = hs ! j
               \<or> (spec_minHeight L j \<le> hs' ! j \<and> hs' ! j \<le> spec_maxHeight L j))
        \<and> (blend \<longrightarrow> distinct secs \<longrightarrow>
              (\<forall>j\<in>set secs. spec_minHeight L j \<le> hs' ! j \<and> hs' ! j \<le> spec_maxHeight L j)
              \<and> (\<bar>w'\<bar> \<le> 1
                  \<or> (\<forall>j\<in>set secs. hs' ! j = spec_minHeight L j \<or> hs' ! j = spec_maxHeight L j)))"
proof (induction ov secs L arbitrary: w hs rule: applyOverflow_induct [where blend = blend])
  case (pass ov secs L)
  note ov = pass.prems(1) and hL = pass.prems(2) and len = pass.prems(3) and rng = pass.prems(4)
  let ?lo = "spec_minHeight L" and ?hi = "spec_maxHeight L"
  have L: "L\<lparr>heights := map Num hs\<rparr> = L" using hL by simp
  show ?case
  proof (cases "secs = []")
    case True
    have "applyOverflow ov [] blend L = Some (Inr (ov, L))"
      by (subst applyOverflow.simps) simp
    with True ov L show ?thesis
      by (intro exI [of _ w] exI [of _ hs]) simp
  next
    case False
    define q where "q = (if blend then w / of_nat (length secs) else w)"
    from False ov have ops: "(if blend then js_div ov (length secs) else ov) = Num q"
      by (simp add: q_def)
    obtain w1 uncl hs1 where fl: "finite_loop blend ?lo ?hi secs w q [] hs = ((w1, uncl), hs1)"
      by (metis surj_pair)
    define L1 where "L1 = L\<lparr>heights := map Num hs1\<rparr>"
    from loop_finite [OF hL len rng, of blend w q "[]"] fl ov
    have loop: "applyOverflow_loop blend secs ov (if blend then js_div ov (length secs) else ov) [] L
        = Inr ((Num w1, uncl), L1)"
      unfolding ops by (simp add: L1_def)
    have order: "\<forall>i. ?lo i \<le> ?hi i" by (simp add: spec_bounds_order)
    note len1 = finite_loop_length [OF fl]
    note sum1 = finite_loop_sum [OF fl rng]
    have frame1: "\<forall>j. j \<notin> set secs \<longrightarrow> hs1 ! j = hs ! j"
      using finite_loop_frame [OF fl] by simp
    have bounds1: "\<forall>j<length hs. hs1 ! j = hs ! j \<or> (?lo j \<le> hs1 ! j \<and> hs1 ! j \<le> ?hi j)"
      using finite_loop_bounds [OF fl order] by simp
    from finite_loop_unclamped [OF fl] have sub: "set uncl \<subseteq> set secs"
      and dist: "distinct secs \<longrightarrow> distinct uncl" by auto
    have blend1: "blend \<longrightarrow> distinct secs \<longrightarrow>
        (\<forall>j\<in>set secs. ?lo j \<le> hs1 ! j \<and> hs1 ! j \<le> ?hi j
            \<and> (j \<in> set uncl \<or> hs1 ! j = ?lo j \<or> hs1 ! j = ?hi j))"
    proof (intro impI ballI)
      fix j assume bl: blend and d: "distinct secs" and j: "j \<in> set secs"
      from fl bl have "finite_loop True ?lo ?hi secs w q [] hs = ((w1, uncl), hs1)" by simp
      from finite_loop_blend [OF this order rng d j]
      show "?lo j \<le> hs1 ! j \<and> hs1 ! j \<le> ?hi j
            \<and> (j \<in> set uncl \<or> hs1 ! j = ?lo j \<or> hs1 ! j = ?hi j)" .
    qed
    show ?thesis
    proof (cases "js_gt (js_abs (Num w1)) (Num 1) \<and> 0 < length uncl")
      case stop: False
      from applyOverflow_stop [OF loop stop]
      have res: "applyOverflow ov secs blend L = Some (Inr (Num w1, L\<lparr>heights := map Num hs1\<rparr>))"
        by (simp add: L1_def)
      from stop have "\<bar>w1\<bar> \<le> 1 \<or> uncl = []" by auto
      with blend1 have "blend \<longrightarrow> distinct secs \<longrightarrow>
          (\<forall>j\<in>set secs. ?lo j \<le> hs1 ! j \<and> hs1 ! j \<le> ?hi j)
          \<and> (\<bar>w1\<bar> \<le> 1 \<or> (\<forall>j\<in>set secs. hs1 ! j = ?lo j \<or> hs1 ! j = ?hi j))"
        by auto
      with res len1 sum1 ov frame1 bounds1 show ?thesis
        by (intro exI [of _ w1] exI [of _ hs1]) simp
    next
      case True
      then have g: "js_gt (js_abs (Num w1)) (Num 1)" "0 < length uncl" by auto
      have pre: "heights L1 = map Num hs1" "length hs1 = length (sections L1)"
        "\<forall>i\<in>set uncl. i < length hs1"
        using len len1 rng sub by (auto simp: L1_def)
      from pass.IH [OF loop g refl pre] obtain w' hs' where
        res': "applyOverflow (Num w1) uncl blend L1 = Some (Inr (Num w', L1\<lparr>heights := map Num hs'\<rparr>))"
        and len': "length hs' = length hs1"
        and sum': "sum_list hs' - w' = sum_list hs1 - w1"
        and frame': "\<forall>j. j \<notin> set uncl \<longrightarrow> hs' ! j = hs1 ! j"
        and bounds': "\<forall>j<length hs1. hs' ! j = hs1 ! j
               \<or> (spec_minHeight L1 j \<le> hs' ! j \<and> hs' ! j \<le> spec_maxHeight L1 j)"
        and blend': "blend \<longrightarrow> distinct uncl \<longrightarrow>
              (\<forall>j\<in>set uncl. spec_minHeight L1 j \<le> hs' ! j \<and> hs' ! j \<le> spec_maxHeight L1 j)
              \<and> (\<bar>w'\<bar> \<le> 1
                  \<or> (\<forall>j\<in>set uncl. hs' ! j = spec_minHeight L1 j \<or> hs' ! j = spec_maxHeight L1 j))"
        by blast
      have b: "spec_minHeight L1 = ?lo" "spec_maxHeight L1 = ?hi"
        by (auto simp: L1_def)
      from applyOverflow_rec [OF loop g] res'
      have res: "applyOverflow ov secs blend L = Some (Inr (Num w', L\<lparr>heights := map Num hs'\<rparr>))"
        by (simp add: L1_def)
      have c1: "length hs' = length hs" using len' len1 by simp
      have c2: "sum_list hs' - w' = sum_list hs - w" using sum' sum1 by simp
      have c3: "\<forall>j. j \<notin> set secs \<longrightarrow> hs' ! j = hs ! j"
        using frame' frame1 sub by auto
      have c4: "\<forall>j<length hs. hs' ! j = hs ! j \<or> (?lo j \<le> hs' ! j \<and> hs' ! j \<le> ?hi j)"
      proof (intro allI impI)
        fix j assume j: "j < length hs"
        with bounds' len1 have "hs' ! j = hs1 ! j \<or> (?lo j \<le> hs' ! j \<and> hs' ! j \<le> ?hi j)"
          by (simp add: b)
        with bounds1 j show "hs' ! j = hs ! j \<or> (?lo j \<le> hs' ! j \<and> hs' ! j \<le> ?hi j)"
          by auto
      qed
      have c5: "blend \<longrightarrow> distinct secs \<longrightarrow>
              (\<forall>j\<in>set secs. ?lo j \<le> hs' ! j \<and> hs' ! j \<le> ?hi j)
              \<and> (\<bar>w'\<bar> \<le> 1 \<or> (\<forall>j\<in>set secs. hs' ! j = ?lo j \<or> hs' ! j = ?hi j))"
      proof (intro impI)
        assume bl: blend and d: "distinct secs"
        from blend' bl d dist have in': "\<forall>j\<in>set uncl. ?lo j \<le> hs' ! j \<and> hs' ! j \<le> ?hi j"
          and at': "\<bar>w'\<bar> \<le> 1 \<or> (\<forall>j\<in>set uncl. hs' ! j = ?lo j \<or> hs' ! j = ?hi j)"
          by (simp_all add: b)
        from blend1 bl d have in1: "\<forall>j\<in>set secs. ?lo j \<le> hs1 ! j \<and> hs1 ! j \<le> ?hi j"
          and at1: "\<forall>j\<in>set secs. j \<in> set uncl \<or> hs1 ! j = ?lo j \<or> hs1 ! j = ?hi j"
          by auto
        have "\<forall>j\<in>set secs. ?lo j \<le> hs' ! j \<and> hs' ! j \<le> ?hi j"
        proof
          fix j assume j: "j \<in> set secs"
          show "?lo j \<le> hs' ! j \<and> hs' ! j \<le> ?hi j"
          proof (cases "j \<in> set uncl")
            case True
            with in' show ?thesis by simp
          next
            case False
            with frame' have "hs' ! j = hs1 ! j" by simp
            with in1 j show ?thesis by simp
          qed
        qed
        moreover have "\<forall>j\<in>set secs. hs' ! j = ?lo j \<or> hs' ! j = ?hi j"
          if all: "\<forall>j\<in>set uncl. hs' ! j = ?lo j \<or> hs' ! j = ?hi j"
        proof
          fix j assume j: "j \<in> set secs"
          show "hs' ! j = ?lo j \<or> hs' ! j = ?hi j"
          proof (cases "j \<in> set uncl")
            case True
            with all show ?thesis by simp
          next
            case False
            with frame' have "hs' ! j = hs1 ! j" by simp
            with at1 j False show ?thesis by auto
          qed
        qed
        ultimately show "(\<forall>j\<in>set secs. ?lo j \<le> hs' ! j \<and> hs' ! j \<le> ?hi j)
              \<and> (\<bar>w'\<bar> \<le> 1 \<or> (\<forall>j\<in>set secs. hs' ! j = ?lo j \<or> hs' ! j = ?hi j))"
          using at' by blast
      qed
      from res c1 c2 c3 c4 c5 show ?thesis
        by (intro exI [of _ w'] exI [of _ hs']) simp
    qed
  qed
qed

lemmas applyOverflow_finite = applyOverflow_finite_aux [OF refl]

section \<open>Layouts in good order\<close>

lemma boundsOK_iff:
  "boundsOK L vs \<longleftrightarrow>
     (\<exists>hs. vs = map Num hs \<and> length hs = length (sections L)
        \<and> (\<forall>i<length hs. spec_minHeight L i \<le> hs ! i \<and> hs ! i \<le> spec_maxHeight L i))"
proof
  assume ok: "boundsOK L vs"
  define hs where "hs = map (\<lambda>v. case v of Num h \<Rightarrow> h | _ \<Rightarrow> 0) vs"
  from ok have len: "length vs = length (sections L)"
    and all: "\<forall>i<length vs. case vs ! i of
        Num h \<Rightarrow> spec_minHeight L i \<le> h \<and> h \<le> spec_maxHeight L i | _ \<Rightarrow> False"
    by (auto simp: boundsOK_def list_all_iff)
  have num: "vs ! i = Num (hs ! i)" if "i < length vs" for i
    using all [rule_format, OF that] that by (cases "vs ! i") (auto simp: hs_def)
  have lhs: "length hs = length vs" by (simp add: hs_def)
  have "vs = map Num hs"
  proof (rule nth_equalityI)
    show "length vs = length (map Num hs)" using lhs by simp
  next
    fix i assume i: "i < length vs"
    with lhs have "map Num hs ! i = Num (hs ! i)" by simp
    with num [OF i] show "vs ! i = map Num hs ! i" by (simp only:)
  qed
  moreover have "length hs = length (sections L)" using len lhs by simp
  moreover have "\<forall>i<length hs. spec_minHeight L i \<le> hs ! i \<and> hs ! i \<le> spec_maxHeight L i"
  proof (intro allI impI)
    fix i assume "i < length hs"
    then have i: "i < length vs" using lhs by simp
    from all [rule_format, OF i] num [OF i]
    show "spec_minHeight L i \<le> hs ! i \<and> hs ! i \<le> spec_maxHeight L i" by simp
  qed
  ultimately show "\<exists>hs. vs = map Num hs \<and> length hs = length (sections L)
        \<and> (\<forall>i<length hs. spec_minHeight L i \<le> hs ! i \<and> hs ! i \<le> spec_maxHeight L i)"
    by blast
next
  assume "\<exists>hs. vs = map Num hs \<and> length hs = length (sections L)
        \<and> (\<forall>i<length hs. spec_minHeight L i \<le> hs ! i \<and> hs ! i \<le> spec_maxHeight L i)"
  then show "boundsOK L vs"
    by (auto simp: boundsOK_def list_all_iff)
qed

lemma boundsOK_cong:
  "sections L' = sections L \<Longrightarrow> collapsedState L' = collapsedState L
   \<Longrightarrow> boundsOK L' vs = boundsOK L vs"
proof -
  assume "sections L' = sections L" "collapsedState L' = collapsedState L"
  then have "spec_minHeight L' = spec_minHeight L" "spec_maxHeight L' = spec_maxHeight L"
    by (auto simp: spec_minHeight_def spec_maxHeight_def isCollapsed_def)
  then show ?thesis
    using \<open>sections L' = sections L\<close>
    by (simp add: boundsOK_def cong: jsval.case_cong)
qed

lemma foldl_js_add: "foldl js_add (Num x) (map Num cs) = Num (x + sum_list cs)"
  by (induction cs arbitrary: x) (simp_all add: algebra_simps)

lemma currHeight_committed:
  "foldl (\<lambda>sum s. js_add sum (js_get (sectionHeights L) (sec_id s))) (Num 0) (sections L)
   = committedSum L"
  by (simp add: committedSum_def committedHeights_def foldl_map)

lemma getAvailableHeight_cong:
  "sections L' = sections L \<Longrightarrow> collapsedState L' = collapsedState L
   \<Longrightarrow> availableHeight L' = availableHeight L
   \<Longrightarrow> getAvailableHeight L' = getAvailableHeight L"
  by (simp add: getAvailableHeight_def isCollapsed_def)

lemma getAvailableHeight_finite:
  "availableHeight L = Num a \<Longrightarrow> \<exists>t. getAvailableHeight L = Num t"
  by (simp add: getAvailableHeight_def Let_def)

lemma applyNewSize_finite:
  assumes d: "distinct (map sec_id (sections L))" and a: "isFinite (availableHeight L)"
    and c: "committedHeights L = map Num cs"
  shows "\<exists>L'. applyNewSize L = Some (Inr ((), L'))
    \<and> sections L' = sections L \<and> collapsedState L' = collapsedState L
    \<and> availableHeight L' = availableHeight L
    \<and> layoutInv L' \<and> sumSettled L' \<and> heights L' = committedHeights L'"
proof -
  let ?n = "length (sections L)"
  from a obtain t where t: "getAvailableHeight L = Num t"
    using getAvailableHeight_finite by (cases "availableHeight L") auto
  have len: "length cs = ?n"
    using arg_cong [OF c, of length] by (simp add: committedHeights_def)
  define L1 where "L1 = L\<lparr>heights := committedHeights L\<rparr>"
  have pre: "heights L1 = map Num cs" "length cs = length (sections L1)"
    "\<forall>i\<in>set [0..<?n]. i < length cs"
    using c len by (simp_all add: L1_def)
  have ov: "js_neg (js_sub (getAvailableHeight L) (committedSum L)) = Num (sum_list cs - t)"
    by (simp add: t committedSum_def c foldl_js_add)
  from applyOverflow_finite [OF pre, of "sum_list cs - t" True] obtain w' hs' where
    run: "applyOverflow (Num (sum_list cs - t)) [0..<?n] True L1
            = Some (Inr (Num w', L1\<lparr>heights := map Num hs'\<rparr>))"
    and len': "length hs' = length cs"
    and sum': "sum_list hs' - w' = sum_list cs - (sum_list cs - t)"
    and inb: "\<forall>j\<in>set [0..<?n]. spec_minHeight L1 j \<le> hs' ! j \<and> hs' ! j \<le> spec_maxHeight L1 j"
    and res: "\<bar>w'\<bar> \<le> 1
       \<or> (\<forall>j\<in>set [0..<?n]. hs' ! j = spec_minHeight L1 j \<or> hs' ! j = spec_maxHeight L1 j)"
    by auto
  define L' where "L' = commitHeights (applyHeights (L\<lparr>heights := map Num hs'\<rparr>))"
  have ans: "applyNewSize L = Some (Inr ((), L'))"
    using run by (simp add: applyNewSize_def Let_def currHeight_committed ov L1_def L'_def)
  have fr: "sections L' = sections L" "collapsedState L' = collapsedState L"
    "availableHeight L' = availableHeight L" "heights L' = map Num hs'"
    by (simp_all add: L'_def)
  have com: "committedHeights L' = map Num hs'"
  proof -
    have "committedHeights L' = map (js_nth (map Num hs')) [0..<?n]"
      unfolding L'_def using d by (simp add: committedHeights_commit)
    also have "\<dots> = map Num hs'"
      using len' len by (intro nth_equalityI) simp_all
    finally show ?thesis .
  qed
  have b: "spec_minHeight L' = spec_minHeight L" "spec_maxHeight L' = spec_maxHeight L"
    "spec_minHeight L1 = spec_minHeight L" "spec_maxHeight L1 = spec_maxHeight L"
    by (auto simp: spec_minHeight_def spec_maxHeight_def isCollapsed_def fr L1_def)
  have ok: "boundsOK L' (map Num hs')"
    unfolding boundsOK_iff using inb len' len by (auto simp: b fr)
  have inv: "layoutInv L'"
    using d a ok by (simp add: layoutInv_def fr com)
  have t': "getAvailableHeight L' = Num t"
    using t getAvailableHeight_cong [OF fr(1,2,3)] by simp
  have "\<bar>sum_list hs' - t\<bar> \<le> 1 \<or> atBounds L'"
  proof (cases "\<bar>w'\<bar> \<le> 1")
    case True
    from sum' have "sum_list hs' - t = w'" by simp
    with True show ?thesis by simp
  next
    case False
    with res have "\<forall>j<?n. hs' ! j = spec_minHeight L j \<or> hs' ! j = spec_maxHeight L j"
      by (simp add: b)
    then have "atBounds L'"
      using len' len by (auto simp: atBounds_def list_all_iff com b fr)
    then show ?thesis ..
  qed
  then have "sumSettled L'"
    by (simp add: sumSettled_def committedSum_def com foldl_js_add t')
  with ans fr inv com show ?thesis by auto
qed

lemma anchorOverflowAbove_Num:
  "\<exists>x. anchorOverflowAbove (Num h) (Num d) (Num lo) (Num hi) = Num x"
  by (simp add: anchorOverflowAbove_def)

lemma applyOverflow_keeps_bounds:
  assumes h: "heights L = map Num hs" and len: "length hs = length (sections L)"
    and inb: "\<forall>j<length hs. spec_minHeight L j \<le> hs ! j \<and> hs ! j \<le> spec_maxHeight L j"
    and rng: "\<forall>i\<in>set secs. i < length hs"
  shows "\<exists>w' hs'. applyOverflow (Num w) secs blend L = Some (Inr (Num w', L\<lparr>heights := map Num hs'\<rparr>))
    \<and> length hs' = length hs
    \<and> (\<forall>j<length hs'. spec_minHeight L j \<le> hs' ! j \<and> hs' ! j \<le> spec_maxHeight L j)"
proof -
  from applyOverflow_finite [OF h len rng, of w blend] obtain w' hs' where
    run: "applyOverflow (Num w) secs blend L = Some (Inr (Num w', L\<lparr>heights := map Num hs'\<rparr>))"
    and len': "length hs' = length hs"
    and b: "\<forall>j<length hs. hs' ! j = hs ! j
               \<or> (spec_minHeight L j \<le> hs' ! j \<and> hs' ! j \<le> spec_maxHeight L j)"
    by blast
  from b inb len' have "\<forall>j<length hs'. spec_minHeight L j \<le> hs' ! j \<and> hs' ! j \<le> spec_maxHeight L j"
    by auto
  with run len' show ?thesis by blast
qed

lemma rebalanceAbove_keeps_bounds:
  assumes h: "heights L = map Num hs" and len: "length hs = length (sections L)"
    and inb: "\<forall>j<length hs. spec_minHeight L j \<le> hs ! j \<and> hs ! j \<le> spec_maxHeight L j"
    and a: "a \<le> length hs"
  shows "\<exists>w' hs'. rebalanceAbove a (Num w) L = Some (Inr (Num w', L\<lparr>heights := map Num hs'\<rparr>))
    \<and> length hs' = length hs
    \<and> (\<forall>j<length hs'. spec_minHeight L j \<le> hs' ! j \<and> hs' ! j \<le> spec_maxHeight L j)"
proof (cases "1 < \<bar>w\<bar>")
  case True
  from a have "\<forall>i\<in>set (rev [0..<a]). i < length hs" by auto
  from applyOverflow_keeps_bounds [OF h len inb this, of w False] True show ?thesis
    by (simp add: rebalanceAbove_def)
next
  case False
  have "L\<lparr>heights := map Num hs\<rparr> = L" using h by simp
  with False inb show ?thesis
    by (intro exI [of _ w] exI [of _ hs]) (simp add: rebalanceAbove_def)
qed

lemma rebalanceBelow_keeps_bounds:
  assumes h: "heights L = map Num hs" and len: "length hs = length (sections L)"
    and inb: "\<forall>j<length hs. spec_minHeight L j \<le> hs ! j \<and> hs ! j \<le> spec_maxHeight L j"
  shows "\<exists>w' hs'. rebalanceBelow a (Num w) L = Some (Inr (Num w', L\<lparr>heights := map Num hs'\<rparr>))
    \<and> length hs' = length hs
    \<and> (\<forall>j<length hs'. spec_minHeight L j \<le> hs' ! j \<and> hs' ! j \<le> spec_maxHeight L j)"
proof (cases "1 < \<bar>w\<bar>")
  case True
  from len have "\<forall>i\<in>set [a + 1..<length (sections L)]. i < length hs" by auto
  from applyOverflow_keeps_bounds [OF h len inb this, of w False] True show ?thesis
    by (simp add: rebalanceBelow_def)
next
  case False
  have "L\<lparr>heights := map Num hs\<rparr> = L" using h by simp
  with False inb show ?thesis
    by (intro exI [of _ w] exI [of _ hs]) (simp add: rebalanceBelow_def)
qed

lemma rebalanceBoth_keeps_bounds:
  assumes h: "heights L = map Num hs" and len: "length hs = length (sections L)"
    and inb: "\<forall>j<length hs. spec_minHeight L j \<le> hs ! j \<and> hs ! j \<le> spec_maxHeight L j"
    and a: "a \<le> length hs"
  shows "\<exists>wa wb hs'. rebalanceBoth a (Num x) (Num y) L
        = Some (Inr ((Num wa, Num wb), L\<lparr>heights := map Num hs'\<rparr>))
    \<and> length hs' = length hs
    \<and> (\<forall>j<length hs'. spec_minHeight L j \<le> hs' ! j \<and> hs' ! j \<le> spec_maxHeight L j)"
proof -
  from rebalanceAbove_keeps_bounds [OF h len inb a, of x] obtain wa hs3 where
    above: "rebalanceAbove a (Num x) L = Some (Inr (Num wa, L\<lparr>heights := map Num hs3\<rparr>))"
    and len3: "length hs3 = length hs"
    and inb3: "\<forall>j<length hs3. spec_minHeight L j \<le> hs3 ! j \<and> hs3 ! j \<le> spec_maxHeight L j"
    by blast
  define L3 where "L3 = L\<lparr>heights := map Num hs3\<rparr>"
  have pre: "heights L3 = map Num hs3" "length hs3 = length (sections L3)"
    "\<forall>j<length hs3. spec_minHeight L3 j \<le> hs3 ! j \<and> hs3 ! j \<le> spec_maxHeight L3 j"
    using len len3 inb3 by (simp_all add: L3_def)
  from rebalanceBelow_keeps_bounds [OF pre, of a y] obtain wb hs4 where
    below: "rebalanceBelow a (Num y) L3 = Some (Inr (Num wb, L3\<lparr>heights := map Num hs4\<rparr>))"
    and len4: "length hs4 = length hs3"
    and inb4: "\<forall>j<length hs4. spec_minHeight L3 j \<le> hs4 ! j \<and> hs4 ! j \<le> spec_maxHeight L3 j"
    by blast
  from above below have "rebalanceBoth a (Num x) (Num y) L
      = Some (Inr ((Num wa, Num wb), L\<lparr>heights := map Num hs4\<rparr>))"
    by (simp add: rebalanceBoth_def L3_def)
  with len3 len4 inb4 show ?thesis
    by (intro exI [of _ wa] exI [of _ wb] exI [of _ hs4]) (simp add: L3_def)
qed

lemma relayout_pass_inv:
  assumes ok: "boundsOK L (committedHeights L)"
    and anc: "0 \<le> anc" "anc < int (length (sections L))"
  shows "\<exists>wa wb hs'. relayout_pass L anc (Num d)
        = Some (Inr ((Num wa, Num wb), L\<lparr>heights := map Num hs'\<rparr>))
    \<and> boundsOK L (map Num hs')"
proof -
  from ok obtain cs where c: "committedHeights L = map Num cs"
    and len: "length cs = length (sections L)"
    and inb: "\<forall>i<length cs. spec_minHeight L i \<le> cs ! i \<and> cs ! i \<le> spec_maxHeight L i"
    unfolding boundsOK_iff by blast
  define a where "a = nat anc"
  from anc len have a: "a < length cs" by (simp add: a_def)
  let ?lo = "spec_minHeight L a" and ?hi = "spec_maxHeight L a"
  define c1 where "c1 = clampR (cs ! a + d) ?lo ?hi"
  obtain x where x: "anchorOverflowAbove (Num (cs ! a)) (Num d) (Num ?lo) (Num ?hi) = Num x"
    using anchorOverflowAbove_Num by blast
  define L2 where "L2 = L\<lparr>heights := map Num (cs[a := c1])\<rparr>"
  have cb: "?lo \<le> c1 \<and> c1 \<le> ?hi"
    unfolding c1_def by (rule clampR_bounds) (rule spec_bounds_order)
  have pre: "heights L2 = map Num (cs[a := c1])" "length (cs[a := c1]) = length (sections L2)"
    "a \<le> length (cs[a := c1])"
    using len a by (simp_all add: L2_def)
  have inb2: "\<forall>j<length (cs[a := c1]).
      spec_minHeight L2 j \<le> cs[a := c1] ! j \<and> cs[a := c1] ! j \<le> spec_maxHeight L2 j"
  proof (intro allI impI)
    fix j assume "j < length (cs[a := c1])"
    with inb cb show "spec_minHeight L2 j \<le> cs[a := c1] ! j \<and> cs[a := c1] ! j \<le> spec_maxHeight L2 j"
      by (cases "j = a") (auto simp: L2_def)
  qed
  from rebalanceBoth_keeps_bounds [OF pre(1,2) inb2 pre(3), of x d] obtain wa wb hs' where
    both: "rebalanceBoth a (Num x) (Num d) L2
        = Some (Inr ((Num wa, Num wb), L2\<lparr>heights := map Num hs'\<rparr>))"
    and len': "length hs' = length (cs[a := c1])"
    and inb': "\<forall>j<length hs'. spec_minHeight L2 j \<le> hs' ! j \<and> hs' ! j \<le> spec_maxHeight L2 j"
    by blast
  have pass: "relayout_pass L anc (Num d) = Some (Inr ((Num wa, Num wb), L\<lparr>heights := map Num hs'\<rparr>))"
    using anc a both x
    by (simp add: relayout_pass_def Let_def getMinHeight_spec getMaxHeight_spec c
          a_def [symmetric] c1_def [symmetric] L2_def [symmetric])
       (simp add: L2_def)
  have "boundsOK L (map Num hs')"
    unfolding boundsOK_iff using len' len inb' by (auto simp: L2_def)
  with pass show ?thesis by blast
qed

lemma boundsOK_heights:
  "boundsOK (L\<lparr>heights := hs\<rparr>) vs = boundsOK L vs"
  "boundsOK (applyHeights L) vs = boundsOK L vs"
  "boundsOK (commitHeights L) vs = boundsOK L vs"
  "boundsOK (L\<lparr>availableHeight := a\<rparr>) vs = boundsOK L vs"
  by (rule boundsOK_cong; simp)+

lemma relayout_True_inv:
  assumes ok: "boundsOK L (committedHeights L)"
    and anc: "0 \<le> anc" "anc < int (length (sections L))"
  shows "\<exists>L'. relayout L anc (Num d) True = Some (Inr (Undefined, L'))
    \<and> committedUnchanged L L' \<and> boundsOK L (heights L')"
proof -
  from relayout_pass_inv [OF ok anc, of d] obtain wa wb hs' where
    pass: "relayout_pass L anc (Num d) = Some (Inr ((Num wa, Num wb), L\<lparr>heights := map Num hs'\<rparr>))"
    and b: "boundsOK L (map Num hs')" by blast
  then have "relayout L anc (Num d) True
      = Some (Inr (Undefined, applyHeights (L\<lparr>heights := map Num hs'\<rparr>)))"
    by (simp add: relayout_True)
  with b show ?thesis
    by (simp add: committedUnchanged_def)
qed

lemma relayout_inv:
  assumes ok: "boundsOK L (committedHeights L)"
    and anc: "0 \<le> anc" "anc < int (length (sections L))"
  shows "\<exists>v L'. relayout L anc (Num d) clamped = Some (Inr (v, L'))
    \<and> committedUnchanged L L' \<and> boundsOK L (heights L')"
proof -
  from relayout_pass_inv [OF ok anc, of d] obtain wa wb hs' where
    pass: "relayout_pass L anc (Num d) = Some (Inr ((Num wa, Num wb), L\<lparr>heights := map Num hs'\<rparr>))"
    and b: "boundsOK L (map Num hs')" by blast
  define L4 where "L4 = L\<lparr>heights := map Num hs'\<rparr>"
  have ok4: "boundsOK L4 (committedHeights L4)" and anc4: "anc < int (length (sections L4))"
    using ok anc by (simp_all add: L4_def boundsOK_heights)
  have rerun: "\<exists>L'. relayout L4 anc (Num e) True = Some (Inr (Undefined, L'))
      \<and> committedUnchanged L L' \<and> boundsOK L (heights L')" for e
    using relayout_True_inv [OF ok4 anc(1) anc4, of e]
    by (auto simp: L4_def committedUnchanged_def boundsOK_heights)
  consider (above) "\<not> clamped \<and> 1 < \<bar>wa\<bar>"
    | (below) "\<not> (\<not> clamped \<and> 1 < \<bar>wa\<bar>)" "\<not> clamped \<and> 1 < \<bar>wb\<bar>"
    | (settled) "\<not> (\<not> clamped \<and> 1 < \<bar>wa\<bar>)" "\<not> (\<not> clamped \<and> 1 < \<bar>wb\<bar>)"
    by blast
  then show ?thesis
  proof cases
    case above
    from rerun [of "d + wa"] obtain L' where
      "relayout L4 anc (Num (d + wa)) True = Some (Inr (Undefined, L'))"
      "committedUnchanged L L'" "boundsOK L (heights L')" by blast
    with above pass show ?thesis
      by (subst relayout.simps) (simp add: L4_def)
  next
    case below
    from rerun [of "d - wb"] obtain L' where
      "relayout L4 anc (Num (d - wb)) True = Some (Inr (Undefined, L'))"
      "committedUnchanged L L'" "boundsOK L (heights L')" by blast
    with below pass show ?thesis
      by (subst relayout.simps) (auto simp add: L4_def)
  next
    case settled
    with pass b show ?thesis
      by (subst relayout.simps) (auto simp add: committedUnchanged_def)
  qed
qed

lemma finite_list:
  "\<forall>v\<in>set vs. isFinite v \<Longrightarrow> \<exists>cs. vs = map Num cs"
proof (induction vs)
  case Nil
  then show ?case by simp
next
  case (Cons v vs)
  then obtain cs where "vs = map Num cs" by auto
  moreover from Cons.prems obtain c where "v = Num c" by (cases v) auto
  ultimately have "v # vs = map Num (c # cs)" by simp
  then show ?case by (rule exI)
qed

lemma layoutInv_committed:
  "layoutInv L \<Longrightarrow> \<exists>cs. committedHeights L = map Num cs"
  unfolding layoutInv_def boundsOK_iff by blast

lemma committedHeights_collapsed [simp]:
  "committedHeights (L\<lparr>collapsedState := cst\<rparr>) = committedHeights L"
  by (simp add: committedHeights_def)

lemma newLayout_inv: "layoutInv (newLayout initialSizes collapsed)"
  by (simp add: layoutInv_def newLayout_def boundsOK_def committedHeights_def)

lemma setAvailableHeight_inv:
  assumes "layoutInv L" and "isFinite v"
  shows "\<exists>L'. setAvailableHeight v L = Some (Inr ((), L')) \<and> layoutInv L' \<and> sumSettled L'"
proof -
  from layoutInv_committed [OF assms(1)] obtain cs where
    "committedHeights (L\<lparr>availableHeight := v\<rparr>) = map Num cs" by auto
  from applyNewSize_finite [OF _ _ this] assms show ?thesis
    by (auto simp: setAvailableHeight_def layoutInv_def)
qed

lemma collapseSection_inv:
  assumes "layoutInv L"
  shows "\<exists>L'. collapseSection k L = Some (Inr ((), L')) \<and> layoutInv L' \<and> sumSettled L'
    \<and> sections L' = sections L \<and> collapsedState L' = (collapsedState L)(k \<mapsto> True)"
proof -
  from layoutInv_committed [OF assms] obtain cs where
    "committedHeights (L\<lparr>collapsedState := (collapsedState L)(k \<mapsto> True)\<rparr>) = map Num cs" by auto
  from applyNewSize_finite [OF _ _ this] assms show ?thesis
    by (auto simp: collapseSection_def layoutInv_def)
qed

lemma update_inv:
  assumes inv: "layoutInv L" and ok: "opOK (Update secs v) L"
  shows "\<exists>L'. update secs v L = Some (Inr ((), L')) \<and> layoutInv L' \<and> (L' = L \<or> sumSettled L')"
proof (cases "(isFinite v \<and> v \<noteq> availableHeight L) \<or> secs \<noteq> sections L")
  case False
  with update_unchanged [of v L secs] inv show ?thesis by auto
next
  case True
  from ok have d: "distinct (map sec_id secs)"
    and stored: "\<forall>s\<in>set secs. isFinite (js_get (sectionHeights L) (sec_id s))
        \<or> \<not> truthy (js_get (sectionHeights L) (sec_id s))"
    by (simp_all add: list_all_iff)
  from update_seeds [OF d True] obtain m' L2 where
    L2: "L2 = L\<lparr>availableHeight := (if isFinite v then v else availableHeight L), sections := secs\<rparr>"
    and run: "update secs v L = applyNewSize (L2\<lparr>sectionHeights := m'\<rparr>)"
    and listed: "\<forall>i<length secs. m' (sec_id (secs ! i)) =
          (if truthy (js_get (sectionHeights L) (sec_id (secs ! i)))
           then sectionHeights L (sec_id (secs ! i))
           else Some (clamp (js_div (getAvailableHeight L2) (length secs))
                        (Num (spec_minHeight L2 i)) (Num (spec_maxHeight L2 i))))"
    by blast
  from inv have fin: "isFinite (availableHeight L2)"
    by (simp add: L2 layoutInv_def)
  then obtain t where t: "getAvailableHeight L2 = Num t"
    using getAvailableHeight_finite by (cases "availableHeight L2") auto
  define L3 where "L3 = L2\<lparr>sectionHeights := m'\<rparr>"
  have "\<forall>x\<in>set (committedHeights L3). isFinite x"
  proof
    fix x assume "x \<in> set (committedHeights L3)"
    then obtain i where i: "i < length secs" and x: "x = js_get m' (sec_id (secs ! i))"
      by (auto simp: committedHeights_def L3_def L2 in_set_conv_nth)
    show "isFinite x"
    proof (cases "truthy (js_get (sectionHeights L) (sec_id (secs ! i)))")
      case True
      with listed i have "m' (sec_id (secs ! i)) = sectionHeights L (sec_id (secs ! i))" by simp
      then have "x = js_get (sectionHeights L) (sec_id (secs ! i))"
        by (simp add: x js_get_def)
      with stored True i show ?thesis by auto
    next
      case False
      with listed i have "m' (sec_id (secs ! i))
          = Some (clamp (js_div (Num t) (length secs))
                        (Num (spec_minHeight L2 i)) (Num (spec_maxHeight L2 i)))"
        by (simp add: t)
      moreover from i have "js_div (Num t) (length secs) = Num (t / of_nat (length secs))"
        by auto
      ultimately show ?thesis by (simp add: x js_get_def)
    qed
  qed
  from finite_list [OF this] obtain cs where c: "committedHeights L3 = map Num cs" by blast
  have "distinct (map sec_id (sections L3))" "isFinite (availableHeight L3)"
    using d fin by (simp_all add: L3_def L2)
  from applyNewSize_finite [OF this c] run show ?thesis
    by (auto simp: L3_def)
qed

lemma layoutInv_reset:
  "layoutInv L \<Longrightarrow> layoutInv (L\<lparr>heights := committedHeights L\<rparr>)"
  by (simp add: layoutInv_def boundsOK_heights)

lemma setHeight_inv:
  assumes inv: "layoutInv L" and fin: "isFinite height" "isFinite (initialHeight hdl)"
  shows "\<exists>r. setHeight hdl height L = Some r \<and> layoutInv (state_of r)
    \<and> committedUnchanged L (state_of r)
    \<and> (0 \<le> anchor hdl \<and> anchor hdl < int (length (sections L)) \<longrightarrow> returned r)"
proof (cases "0 \<le> anchor hdl \<and> anchor hdl < int (length (sections L))")
  case False
  from relayout_bad_anchor [OF False] layoutInv_reset [OF inv] False show ?thesis
    by (simp add: setHeight_def committedUnchanged_def)
next
  case True
  from fin obtain d where d: "js_sub height (initialHeight hdl) = Num d"
    by (cases height; cases "initialHeight hdl") auto
  from inv have ok: "boundsOK L (committedHeights L)" by (simp add: layoutInv_def)
  from relayout_inv [OF ok, of "anchor hdl" d False] True obtain v L' where
    run: "relayout L (anchor hdl) (Num d) False = Some (Inr (v, L'))"
    and cu: "committedUnchanged L L'" and b: "boundsOK L (heights L')" by auto
  from cu have same: "sections L' = sections L" "collapsedState L' = collapsedState L"
    "availableHeight L' = availableHeight L" "committedHeights L' = committedHeights L"
    by (simp_all add: committedUnchanged_def committedHeights_def)
  from inv b have "layoutInv L'"
    by (simp add: layoutInv_def same boundsOK_cong [OF same(1,2)])
  with run cu d show ?thesis by (simp add: setHeight_def)
qed

lemma finish_inv:
  assumes inv: "layoutInv L"
  shows "layoutInv (snd (finish hdl L))"
proof -
  from inv have d: "distinct (map sec_id (sections L))"
    and h: "boundsOK L (heights L)" by (simp_all add: layoutInv_def)
  from h have len: "length (heights L) = length (sections L)" by (simp add: boundsOK_def)
  have "committedHeights (commitHeights L) = map (js_nth (heights L)) [0..<length (sections L)]"
    using d by (rule committedHeights_commit)
  also have "\<dots> = heights L"
    using len by (intro nth_equalityI) (simp_all add: js_nth_def)
  finally have "committedHeights (commitHeights L) = heights L" .
  with inv show ?thesis
    by (simp add: finish_def layoutInv_def boundsOK_heights)
qed

lemma openHandle_listed:
  assumes inv: "layoutInv L" and i: "i < length (sections L)" and k: "k = sec_id (sections L ! i)"
  shows "anchor (openHandle L k) = int i
    \<and> initialHeight (openHandle L k) = committedHeights L ! i
    \<and> isFinite (committedHeights L ! i)"
proof -
  from inv have d: "distinct (map sec_id (sections L))" by (simp add: layoutInv_def)
  from i k have ex: "\<exists>s\<in>set (sections L). sec_id s = k" by auto
  from findIndex_present [OF ex] have a: "0 \<le> getSectionIndex L k"
    "getSectionIndex L k < int (length (sections L))"
    "sec_id (sections L ! nat (getSectionIndex L k)) = k"
    by (simp_all add: getSectionIndex_def)
  have "nat (getSectionIndex L k) = i"
  proof (rule ccontr)
    assume ne: "nat (getSectionIndex L k) \<noteq> i"
    from a(1,2) have "nat (getSectionIndex L k) < length (map sec_id (sections L))" by simp
    moreover from i have "i < length (map sec_id (sections L))" by simp
    ultimately have "map sec_id (sections L) ! nat (getSectionIndex L k) \<noteq> map sec_id (sections L) ! i"
      using d ne nth_eq_iff_index_eq [of "map sec_id (sections L)"] by blast
    with a i k show False by simp
  qed
  with a(1) have anc: "getSectionIndex L k = int i" by simp
  from layoutInv_committed [OF inv] obtain cs where cs: "committedHeights L = map Num cs" by blast
  have "length cs = length (sections L)"
    using arg_cong [OF cs, of length] by (simp add: committedHeights_def)
  with cs i have "isFinite (committedHeights L ! i)" by simp
  moreover from i k have "js_get (sectionHeights L) k = committedHeights L ! i"
    by (simp add: committedHeights_def)
  ultimately show ?thesis by (simp add: openHandle_def anc)
qed

lemma openHandle_unlisted:
  "k \<notin> sec_id ` set (sections L) \<Longrightarrow> anchor (openHandle L k) = - 1"
  by (auto simp: openHandle_def getSectionIndex_def intro!: findIndex_absent)

lemma expandSection_inv:
  assumes inv: "layoutInv L" and fin: "isFinite height"
  shows "\<exists>r. expandSection k height L = Some r \<and> layoutInv (state_of r)
    \<and> sections (state_of r) = sections L
    \<and> collapsedState (state_of r) = (collapsedState L)(k \<mapsto> False)
    \<and> (k \<in> sec_id ` set (sections L) \<longrightarrow> returned r)"
proof -
  from layoutInv_committed [OF inv] obtain cs where
    "committedHeights (L\<lparr>collapsedState := (collapsedState L)(k \<mapsto> False)\<rparr>) = map Num cs" by auto
  from applyNewSize_finite [OF _ _ this] inv obtain L1 where
    a: "applyNewSize (L\<lparr>collapsedState := (collapsedState L)(k \<mapsto> False)\<rparr>) = Some (Inr ((), L1))"
    and s1: "sections L1 = sections L" "collapsedState L1 = (collapsedState L)(k \<mapsto> False)"
    and inv1: "layoutInv L1"
    by (auto simp: layoutInv_def)
  show ?thesis
  proof (cases "k \<in> sec_id ` set (sections L)")
    case False
    with s1 have "\<not> (0 \<le> anchor (openHandle L1 k) \<and> anchor (openHandle L1 k) < int (length (sections L1)))"
      by (simp add: openHandle_unlisted)
    from relayout_bad_anchor [OF this] a False layoutInv_reset [OF inv1] s1 show ?thesis
      by (simp add: expandSection_def setHeight_def)
  next
    case True
    then obtain i where i: "i < length (sections L1)" and k: "k = sec_id (sections L1 ! i)"
      by (auto simp: s1 in_set_conv_nth)
    from openHandle_listed [OF inv1 i k] have anc: "anchor (openHandle L1 k) = int i"
      and fi: "isFinite (initialHeight (openHandle L1 k))" by simp_all
    from setHeight_inv [OF inv1 fin fi] anc i obtain r where
      r: "setHeight (openHandle L1 k) height L1 = Some r" and invr: "layoutInv (state_of r)"
      and cu: "committedUnchanged L1 (state_of r)" and ret: "returned r" by auto
    from ret obtain hdl' L2 where r2: "r = Inr (hdl', L2)" by (cases r) auto
    from finish_inv [of L2 hdl'] invr r2 have "layoutInv (snd (finish hdl' L2))" by simp
    moreover from cu r2 s1 have "sections (snd (finish hdl' L2)) = sections L"
      "collapsedState (snd (finish hdl' L2)) = (collapsedState L)(k \<mapsto> False)"
      by (simp_all add: finish_def committedUnchanged_def)
    ultimately show ?thesis
      using a r r2 by (simp add: expandSection_def)
  qed
qed

lemma perform_inv:
  assumes "layoutInv L" and "opOK op L"
  shows "\<exists>r. perform op L = Some r \<and> layoutInv (state_of r)"
proof (cases op)
  case (Update secs v)
  with update_inv [of L secs v] assms show ?thesis by auto
next
  case (SetAvailableHeight v)
  with setAvailableHeight_inv [of L v] assms show ?thesis by auto
next
  case (CollapseSection k)
  with collapseSection_inv [of L k] assms show ?thesis by auto
next
  case (ExpandSection k h)
  with expandSection_inv [of L h k] assms show ?thesis by auto
next
  case (SetHeight hdl h)
  with assms have "isFinite h" "isFinite (initialHeight hdl)" by simp_all
  from setHeight_inv [OF assms(1) this] obtain r where
    "setHeight hdl h L = Some r" "layoutInv (state_of r)" by blast
  with SetHeight show ?thesis by (cases r) auto
next
  case (Finish hdl)
  with finish_inv [OF assms(1), of hdl] show ?thesis by simp
qed

section \<open>The direction of a whole-list redistribution\<close>

text \<open>With an even share that shrinks the sections, a section that starts at or below its
  maximum is either shrunk by the whole share or stops at its minimum, and never takes more
  than its share; with a share that grows them, a section that starts at or above its minimum
  either grows by the whole share or stops at its maximum.\<close>

lemma clampR_down:
  assumes "0 \<le> q" and "h \<le> hi"
  shows "h - clampR (h - q) lo hi \<le> q"
    and "clampR (h - q) lo hi = h - q \<or> clampR (h - q) lo hi = lo"
  using assms by (auto simp: clampR_def)

lemma clampR_up:
  assumes "q \<le> 0" and "lo \<le> h"
  shows "q \<le> h - clampR (h - q) lo hi"
    and "clampR (h - q) lo hi = h - q \<or> clampR (h - q) lo hi = hi"
  using assms by (auto simp: clampR_def)

lemma finite_loop_down:
  "finite_loop True lo hi xs ov q uncl hs = ((ov', uncl'), hs') \<Longrightarrow> 0 \<le> q
   \<Longrightarrow> \<forall>i\<in>set xs. i < length hs \<and> hs ! i \<le> hi i \<Longrightarrow> distinct xs
   \<Longrightarrow> ov - q * of_nat (length xs) \<le> ov' \<and> (\<forall>j\<in>set xs. j \<in> set uncl' \<or> hs' ! j = lo j)"
proof (induction xs arbitrary: ov uncl hs)
  case Nil
  then show ?case by simp
next
  case (Cons i rest)
  define c where "c = clampR (hs ! i - q) (lo i) (hi i)"
  define uncl1 where "uncl1 = (if c = hs ! i - q then uncl @ [i] else uncl)"
  from Cons.prems(1) have run:
    "finite_loop True lo hi rest (ov - (hs ! i - c)) q uncl1 (hs[i := c]) = ((ov', uncl'), hs')"
    by (simp add: Let_def c_def [symmetric] uncl1_def)
  from Cons.prems(3) have i: "i < length hs" "hs ! i \<le> hi i" by simp_all
  from Cons.prems(4) have d: "distinct rest" and notin: "i \<notin> set rest" by simp_all
  from Cons.prems(3) notin
  have r: "\<forall>k\<in>set rest. k < length (hs[i := c]) \<and> hs[i := c] ! k \<le> hi k"
    by (auto simp: nth_list_update)
  from clampR_down [OF Cons.prems(2) i(2), of "lo i"]
  have take: "hs ! i - c \<le> q" and at: "c = hs ! i - q \<or> c = lo i"
    by (simp_all add: c_def)
  from Cons.IH [OF run Cons.prems(2) r d]
  have IH1: "ov - (hs ! i - c) - q * of_nat (length rest) \<le> ov'"
    and IH2: "\<forall>j\<in>set rest. j \<in> set uncl' \<or> hs' ! j = lo j" by simp_all
  from IH1 take have "ov - q * of_nat (length (i # rest)) \<le> ov'"
    by (simp add: algebra_simps)
  moreover have "i \<in> set uncl' \<or> hs' ! i = lo i"
  proof -
    from finite_loop_frame [OF run notin] i have v: "hs' ! i = c" by simp
    from finite_loop_unclamped [OF run] have "set uncl1 \<subseteq> set uncl'" by simp
    with at v show ?thesis by (auto simp: uncl1_def)
  qed
  ultimately show ?case using IH2 by simp
qed

lemma finite_loop_up:
  "finite_loop True lo hi xs ov q uncl hs = ((ov', uncl'), hs') \<Longrightarrow> q \<le> 0
   \<Longrightarrow> \<forall>i\<in>set xs. i < length hs \<and> lo i \<le> hs ! i \<Longrightarrow> distinct xs
   \<Longrightarrow> ov' \<le> ov - q * of_nat (length xs) \<and> (\<forall>j\<in>set xs. j \<in> set uncl' \<or> hs' ! j = hi j)"
proof (induction xs arbitrary: ov uncl hs)
  case Nil
  then show ?case by simp
next
  case (Cons i rest)
  define c where "c = clampR (hs ! i - q) (lo i) (hi i)"
  define uncl1 where "uncl1 = (if c = hs ! i - q then uncl @ [i] else uncl)"
  from Cons.prems(1) have run:
    "finite_loop True lo hi rest (ov - (hs ! i - c)) q uncl1 (hs[i := c]) = ((ov', uncl'), hs')"
    by (simp add: Let_def c_def [symmetric] uncl1_def)
  from Cons.prems(3) have i: "i < length hs" "lo i \<le> hs ! i" by simp_all
  from Cons.prems(4) have d: "distinct rest" and notin: "i \<notin> set rest" by simp_all
  from Cons.prems(3) notin
  have r: "\<forall>k\<in>set rest. k < length (hs[i := c]) \<and> lo k \<le> hs[i := c] ! k"
    by (auto simp: nth_list_update)
  from clampR_up [OF Cons.prems(2) i(2), of "hi i"]
  have take: "q \<le> hs ! i - c" and at: "c = hs ! i - q \<or> c = hi i"
    by (simp_all add: c_def)
  from Cons.IH [OF run Cons.prems(2) r d]
  have IH1: "ov' \<le> ov - (hs ! i - c) - q * of_nat (length rest)"
    and IH2: "\<forall>j\<in>set rest. j \<in> set uncl' \<or> hs' ! j = hi j" by simp_all
  from IH1 take have "ov' \<le> ov - q * of_nat (length (i # rest))"
    by (simp add: algebra_simps)
  moreover have "i \<in> set uncl' \<or> hs' ! i = hi i"
  proof -
    from finite_loop_frame [OF run notin] i have v: "hs' ! i = c" by simp
    from finite_loop_unclamped [OF run] have "set uncl1 \<subseteq> set uncl'" by simp
    with at v show ?thesis by (auto simp: uncl1_def)
  qed
  ultimately show ?case using IH2 by simp
qed

text \<open>So a redistribution among all the sections keeps the sign of what is left to
  distribute, and the sections it has clamped are all at the same end of their range.\<close>

lemma applyOverflow_down_aux:
  "ov = Num w \<Longrightarrow> 0 \<le> w \<Longrightarrow> heights L = map Num hs \<Longrightarrow> length hs = length (sections L)
   \<Longrightarrow> \<forall>i\<in>set secs. i < length hs \<and> hs ! i \<le> spec_maxHeight L i \<Longrightarrow> distinct secs
   \<Longrightarrow> \<exists>w' hs'. applyOverflow ov secs True L = Some (Inr (Num w', L\<lparr>heights := map Num hs'\<rparr>))
        \<and> length hs' = length hs
        \<and> sum_list hs' - w' = sum_list hs - w
        \<and> (\<forall>j. j \<notin> set secs \<longrightarrow> hs' ! j = hs ! j)
        \<and> (\<forall>j\<in>set secs. spec_minHeight L j \<le> hs' ! j \<and> hs' ! j \<le> spec_maxHeight L j)
        \<and> 0 \<le> w' \<and> (\<bar>w'\<bar> \<le> 1 \<or> (\<forall>j\<in>set secs. hs' ! j = spec_minHeight L j))"
proof (induction ov secs L arbitrary: w hs rule: applyOverflow_induct [where blend = True])
  case (pass ov secs L)
  note ov = pass.prems(1) and sign = pass.prems(2) and hL = pass.prems(3) and len = pass.prems(4)
    and start = pass.prems(5) and d = pass.prems(6)
  let ?lo = "spec_minHeight L" and ?hi = "spec_maxHeight L"
  have L: "L\<lparr>heights := map Num hs\<rparr> = L" using hL by simp
  from start have rng: "\<forall>i\<in>set secs. i < length hs" by simp
  show ?case
  proof (cases "secs = []")
    case True
    have "applyOverflow ov [] True L = Some (Inr (ov, L))"
      by (subst applyOverflow.simps) simp
    with True ov L sign show ?thesis
      by (intro exI [of _ w] exI [of _ hs]) simp
  next
    case False
    define q where "q = w / of_nat (length secs)"
    from False ov have ops: "(if True then js_div ov (length secs) else ov) = Num q"
      by (simp add: q_def)
    from False sign have q: "0 \<le> q" by (simp add: q_def divide_nonneg_nonneg)
    from False have qn: "q * of_nat (length secs) = w" by (simp add: q_def)
    obtain w1 uncl hs1 where fl: "finite_loop True ?lo ?hi secs w q [] hs = ((w1, uncl), hs1)"
      by (metis surj_pair)
    define L1 where "L1 = L\<lparr>heights := map Num hs1\<rparr>"
    from loop_finite [OF hL len rng, of True w q "[]"] fl ov
    have loop: "applyOverflow_loop True secs ov (if True then js_div ov (length secs) else ov) [] L
        = Inr ((Num w1, uncl), L1)"
      unfolding ops by (simp add: L1_def)
    have order: "\<forall>i. ?lo i \<le> ?hi i" by (simp add: spec_bounds_order)
    note len1 = finite_loop_length [OF fl]
    note sum1 = finite_loop_sum [OF fl rng]
    have frame1: "\<forall>j. j \<notin> set secs \<longrightarrow> hs1 ! j = hs ! j"
      using finite_loop_frame [OF fl] by simp
    from finite_loop_unclamped [OF fl] d have sub: "set uncl \<subseteq> set secs"
      and dist: "distinct uncl" by auto
    have in1: "\<forall>j\<in>set secs. ?lo j \<le> hs1 ! j \<and> hs1 ! j \<le> ?hi j"
      using finite_loop_blend [OF fl order rng d] by blast
    from finite_loop_down [OF fl q start d] qn
    have sign1: "0 \<le> w1" and at1: "\<forall>j\<in>set secs. j \<in> set uncl \<or> hs1 ! j = spec_minHeight L j"
      by simp_all
    show ?thesis
    proof (cases "js_gt (js_abs (Num w1)) (Num 1) \<and> 0 < length uncl")
      case stop: False
      from applyOverflow_stop [OF loop stop]
      have res: "applyOverflow ov secs True L = Some (Inr (Num w1, L\<lparr>heights := map Num hs1\<rparr>))"
        by (simp add: L1_def)
      from stop have "\<bar>w1\<bar> \<le> 1 \<or> uncl = []" by auto
      with at1 have "\<bar>w1\<bar> \<le> 1 \<or> (\<forall>j\<in>set secs. hs1 ! j = spec_minHeight L j)" by auto
      with res len1 sum1 frame1 in1 sign1 show ?thesis
        by (intro exI [of _ w1] exI [of _ hs1]) simp
    next
      case True
      then have g: "js_gt (js_abs (Num w1)) (Num 1)" "0 < length uncl" by auto
      have b: "spec_minHeight L1 = ?lo" "spec_maxHeight L1 = ?hi"
        by (auto simp: L1_def)
      have pre: "heights L1 = map Num hs1" "length hs1 = length (sections L1)"
        using len len1 by (auto simp: L1_def)
      have start1: "\<forall>i\<in>set uncl. i < length hs1 \<and> hs1 ! i \<le> spec_maxHeight L1 i"
        using in1 sub rng len1 by (auto simp: b)
      from pass.IH [OF loop g refl sign1 pre start1 dist] obtain w' hs' where
        res': "applyOverflow (Num w1) uncl True L1 = Some (Inr (Num w', L1\<lparr>heights := map Num hs'\<rparr>))"
        and len': "length hs' = length hs1"
        and sum': "sum_list hs' - w' = sum_list hs1 - w1"
        and frame': "\<forall>j. j \<notin> set uncl \<longrightarrow> hs' ! j = hs1 ! j"
        and in': "\<forall>j\<in>set uncl. ?lo j \<le> hs' ! j \<and> hs' ! j \<le> ?hi j"
        and sign': "0 \<le> w'"
        and at': "\<bar>w'\<bar> \<le> 1 \<or> (\<forall>j\<in>set uncl. hs' ! j = spec_minHeight L j)"
        unfolding b by blast
      from applyOverflow_rec [OF loop g] res'
      have res: "applyOverflow ov secs True L = Some (Inr (Num w', L\<lparr>heights := map Num hs'\<rparr>))"
        by (simp add: L1_def)
      have c1: "length hs' = length hs" using len' len1 by simp
      have c2: "sum_list hs' - w' = sum_list hs - w" using sum' sum1 by simp
      have c3: "\<forall>j. j \<notin> set secs \<longrightarrow> hs' ! j = hs ! j"
        using frame' frame1 sub by auto
      have c4: "\<forall>j\<in>set secs. ?lo j \<le> hs' ! j \<and> hs' ! j \<le> ?hi j"
      proof
        fix j assume j: "j \<in> set secs"
        show "?lo j \<le> hs' ! j \<and> hs' ! j \<le> ?hi j"
        proof (cases "j \<in> set uncl")
          case True
          with in' show ?thesis by simp
        next
          case False
          with frame' have "hs' ! j = hs1 ! j" by simp
          with in1 j show ?thesis by simp
        qed
      qed
      have c5: "\<forall>j\<in>set secs. hs' ! j = spec_minHeight L j"
        if all: "\<forall>j\<in>set uncl. hs' ! j = spec_minHeight L j"
      proof
        fix j assume j: "j \<in> set secs"
        show "hs' ! j = spec_minHeight L j"
        proof (cases "j \<in> set uncl")
          case True
          with all show ?thesis by simp
        next
          case False
          with frame' have "hs' ! j = hs1 ! j" by simp
          with at1 j False show ?thesis by auto
        qed
      qed
      from at' c5 have "\<bar>w'\<bar> \<le> 1 \<or> (\<forall>j\<in>set secs. hs' ! j = spec_minHeight L j)" by blast
      with res c1 c2 c3 c4 sign' show ?thesis
        by (intro exI [of _ w'] exI [of _ hs']) simp
    qed
  qed
qed

lemmas applyOverflow_down = applyOverflow_down_aux [OF refl]

lemma applyOverflow_up_aux:
  "ov = Num w \<Longrightarrow> w \<le> 0 \<Longrightarrow> heights L = map Num hs \<Longrightarrow> length hs = length (sections L)
   \<Longrightarrow> \<forall>i\<in>set secs. i < length hs \<and> spec_minHeight L i \<le> hs ! i \<Longrightarrow> distinct secs
   \<Longrightarrow> \<exists>w' hs'. applyOverflow ov secs True L = Some (Inr (Num w', L\<lparr>heights := map Num hs'\<rparr>))
        \<and> length hs' = length hs
        \<and> sum_list hs' - w' = sum_list hs - w
        \<and> (\<forall>j. j \<notin> set secs \<longrightarrow> hs' ! j = hs ! j)
        \<and> (\<forall>j\<in>set secs. spec_minHeight L j \<le> hs' ! j \<and> hs' ! j \<le> spec_maxHeight L j)
        \<and> w' \<le> 0 \<and> (\<bar>w'\<bar> \<le> 1 \<or> (\<forall>j\<in>set secs. hs' ! j = spec_maxHeight L j))"
proof (induction ov secs L arbitrary: w hs rule: applyOverflow_induct [where blend = True])
  case (pass ov secs L)
  note ov = pass.prems(1) and sign = pass.prems(2) and hL = pass.prems(3) and len = pass.prems(4)
    and start = pass.prems(5) and d = pass.prems(6)
  let ?lo = "spec_minHeight L" and ?hi = "spec_maxHeight L"
  have L: "L\<lparr>heights := map Num hs\<rparr> = L" using hL by simp
  from start have rng: "\<forall>i\<in>set secs. i < length hs" by simp
  show ?case
  proof (cases "secs = []")
    case True
    have "applyOverflow ov [] True L = Some (Inr (ov, L))"
      by (subst applyOverflow.simps) simp
    with True ov L sign show ?thesis
      by (intro exI [of _ w] exI [of _ hs]) simp
  next
    case False
    define q where "q = w / of_nat (length secs)"
    from False ov have ops: "(if True then js_div ov (length secs) else ov) = Num q"
      by (simp add: q_def)
    from False sign have q: "q \<le> 0" by (simp add: q_def divide_nonpos_nonneg)
    from False have qn: "q * of_nat (length secs) = w" by (simp add: q_def)
    obtain w1 uncl hs1 where fl: "finite_loop True ?lo ?hi secs w q [] hs = ((w1, uncl), hs1)"
      by (metis surj_pair)
    define L1 where "L1 = L\<lparr>heights := map Num hs1\<rparr>"
    from loop_finite [OF hL len rng, of True w q "[]"] fl ov
    have loop: "applyOverflow_loop True secs ov (if True then js_div ov (length secs) else ov) [] L
        = Inr ((Num w1, uncl), L1)"
      unfolding ops by (simp add: L1_def)
    have order: "\<forall>i. ?lo i \<le> ?hi i" by (simp add: spec_bounds_order)
    note len1 = finite_loop_length [OF fl]
    note sum1 = finite_loop_sum [OF fl rng]
    have frame1: "\<forall>j. j \<notin> set secs \<longrightarrow> hs1 ! j = hs ! j"
      using finite_loop_frame [OF fl] by simp
    from finite_loop_unclamped [OF fl] d have sub: "set uncl \<subseteq> set secs"
      and dist: "distinct uncl" by auto
    have in1: "\<forall>j\<in>set secs. ?lo j \<le> hs1 ! j \<and> hs1 ! j \<le> ?hi j"
      using finite_loop_blend [OF fl order rng d] by blast
    from finite_loop_up [OF fl q start d] qn
    have sign1: "w1 \<le> 0" and at1: "\<forall>j\<in>set secs. j \<in> set uncl \<or> hs1 ! j = spec_maxHeight L j"
      by simp_all
    show ?thesis
    proof (cases "js_gt (js_abs (Num w1)) (Num 1) \<and> 0 < length uncl")
      case stop: False
      from applyOverflow_stop [OF loop stop]
      have res: "applyOverflow ov secs True L = Some (Inr (Num w1, L\<lparr>heights := map Num hs1\<rparr>))"
        by (simp add: L1_def)
      from stop have "\<bar>w1\<bar> \<le> 1 \<or> uncl = []" by auto
      with at1 have "\<bar>w1\<bar> \<le> 1 \<or> (\<forall>j\<in>set secs. hs1 ! j = spec_maxHeight L j)" by auto
      with res len1 sum1 frame1 in1 sign1 show ?thesis
        by (intro exI [of _ w1] exI [of _ hs1]) simp
    next
      case True
      then have g: "js_gt (js_abs (Num w1)) (Num 1)" "0 < length uncl" by auto
      have b: "spec_minHeight L1 = ?lo" "spec_maxHeight L1 = ?hi"
        by (auto simp: L1_def)
      have pre: "heights L1 = map Num hs1" "length hs1 = length (sections L1)"
        using len len1 by (auto simp: L1_def)
      have start1: "\<forall>i\<in>set uncl. i < length hs1 \<and> spec_minHeight L1 i \<le> hs1 ! i"
        using in1 sub rng len1 by (auto simp: b)
      from pass.IH [OF loop g refl sign1 pre start1 dist] obtain w' hs' where
        res': "applyOverflow (Num w1) uncl True L1 = Some (Inr (Num w', L1\<lparr>heights := map Num hs'\<rparr>))"
        and len': "length hs' = length hs1"
        and sum': "sum_list hs' - w' = sum_list hs1 - w1"
        and frame': "\<forall>j. j \<notin> set uncl \<longrightarrow> hs' ! j = hs1 ! j"
        and in': "\<forall>j\<in>set uncl. ?lo j \<le> hs' ! j \<and> hs' ! j \<le> ?hi j"
        and sign': "w' \<le> 0"
        and at': "\<bar>w'\<bar> \<le> 1 \<or> (\<forall>j\<in>set uncl. hs' ! j = spec_maxHeight L j)"
        unfolding b by blast
      from applyOverflow_rec [OF loop g] res'
      have res: "applyOverflow ov secs True L = Some (Inr (Num w', L\<lparr>heights := map Num hs'\<rparr>))"
        by (simp add: L1_def)
      have c1: "length hs' = length hs" using len' len1 by simp
      have c2: "sum_list hs' - w' = sum_list hs - w" using sum' sum1 by simp
      have c3: "\<forall>j. j \<notin> set secs \<longrightarrow> hs' ! j = hs ! j"
        using frame' frame1 sub by auto
      have c4: "\<forall>j\<in>set secs. ?lo j \<le> hs' ! j \<and> hs' ! j \<le> ?hi j"
      proof
        fix j assume j: "j \<in> set secs"
        show "?lo j \<le> hs' ! j \<and> hs' ! j \<le> ?hi j"
        proof (cases "j \<in> set uncl")
          case True
          with in' show ?thesis by simp
        next
          case False
          with frame' have "hs' ! j = hs1 ! j" by simp
          with in1 j show ?thesis by simp
        qed
      qed
      have c5: "\<forall>j\<in>set secs. hs' ! j = spec_maxHeight L j"
        if all: "\<forall>j\<in>set uncl. hs' ! j = spec_maxHeight L j"
      proof
        fix j assume j: "j \<in> set secs"
        show "hs' ! j = spec_maxHeight L j"
        proof (cases "j \<in> set uncl")
          case True
          with all show ?thesis by simp
        next
          case False
          with frame' have "hs' ! j = hs1 ! j" by simp
          with at1 j False show ?thesis by auto
        qed
      qed
      from at' c5 have "\<bar>w'\<bar> \<le> 1 \<or> (\<forall>j\<in>set secs. hs' ! j = spec_maxHeight L j)" by blast
      with res c1 c2 c3 c4 sign' show ?thesis
        by (intro exI [of _ w'] exI [of _ hs']) simp
    qed
  qed
qed

lemmas applyOverflow_up = applyOverflow_up_aux [OF refl]

section \<open>The committed sum after a redistribution among all the sections\<close>

lemma sumFits_iff:
  "sumFits L \<longleftrightarrow>
     (\<exists>c t. committedSum L = Num c \<and> getAvailableHeight L = Num t
        \<and> (\<bar>c - t\<bar> \<le> 1 \<or> (t < c \<and> allAtMin L) \<or> (c < t \<and> allAtMax L)))"
  by (cases "committedSum L"; cases "getAvailableHeight L") (auto simp: sumFits_def)

lemma applyNewSize_sum:
  assumes d: "distinct (map sec_id (sections L))"
    and c: "committedHeights L = map Num cs"
    and t: "getAvailableHeight L = Num t"
    and run: "applyOverflow (Num (sum_list cs - t)) [0..<length (sections L)] True
                (L\<lparr>heights := committedHeights L\<rparr>)
              = Some (Inr (Num w', L\<lparr>heights := committedHeights L\<rparr>\<lparr>heights := map Num hs'\<rparr>))"
    and len': "length hs' = length cs"
    and sum': "sum_list hs' - w' = sum_list cs - (sum_list cs - t)"
  shows "\<exists>L'. applyNewSize L = Some (Inr ((), L'))
    \<and> sections L' = sections L \<and> collapsedState L' = collapsedState L
    \<and> committedHeights L' = map Num hs'
    \<and> committedSum L' = Num (t + w') \<and> getAvailableHeight L' = Num t"
proof -
  let ?n = "length (sections L)"
  have len: "length cs = ?n"
    using arg_cong [OF c, of length] by (simp add: committedHeights_def)
  have ov: "js_neg (js_sub (getAvailableHeight L) (committedSum L)) = Num (sum_list cs - t)"
    by (simp add: t committedSum_def c foldl_js_add)
  define L' where "L' = commitHeights (applyHeights (L\<lparr>heights := map Num hs'\<rparr>))"
  have ans: "applyNewSize L = Some (Inr ((), L'))"
    using run by (simp add: applyNewSize_def Let_def currHeight_committed ov L'_def)
  have fr: "sections L' = sections L" "collapsedState L' = collapsedState L"
    "availableHeight L' = availableHeight L"
    by (simp_all add: L'_def)
  have com: "committedHeights L' = map Num hs'"
  proof -
    have "committedHeights L' = map (js_nth (map Num hs')) [0..<?n]"
      unfolding L'_def using d by (simp add: committedHeights_commit)
    also have "\<dots> = map Num hs'"
      using len' len by (intro nth_equalityI) simp_all
    finally show ?thesis .
  qed
  have t': "getAvailableHeight L' = Num t"
    using t getAvailableHeight_cong [OF fr(1,2,3)] by simp
  from sum' have "sum_list hs' = t + w'" by simp
  then have "committedSum L' = Num (t + w')"
    by (simp add: committedSum_def com foldl_js_add)
  with ans fr com t' show ?thesis by blast
qed

lemma applyNewSize_down:
  assumes d: "distinct (map sec_id (sections L))"
    and c: "committedHeights L = map Num cs"
    and t: "getAvailableHeight L = Num t"
    and over: "t \<le> sum_list cs"
    and start: "\<forall>i<length cs. cs ! i \<le> spec_maxHeight L i"
  shows "\<exists>L'. applyNewSize L = Some (Inr ((), L')) \<and> sumFits L'"
proof -
  let ?n = "length (sections L)"
  define L1 where "L1 = L\<lparr>heights := committedHeights L\<rparr>"
  have len: "length cs = ?n"
    using arg_cong [OF c, of length] by (simp add: committedHeights_def)
  have b1: "spec_minHeight L1 = spec_minHeight L" "spec_maxHeight L1 = spec_maxHeight L"
    by (auto simp: L1_def)
  have pre: "heights L1 = map Num cs" "length cs = length (sections L1)"
    using c len by (simp_all add: L1_def)
  have st: "\<forall>i\<in>set [0..<?n]. i < length cs \<and> cs ! i \<le> spec_maxHeight L1 i"
    using start len by (simp add: b1)
  from over have sg: "0 \<le> sum_list cs - t" by simp
  from applyOverflow_down [OF sg pre st] obtain w' hs' where
    run: "applyOverflow (Num (sum_list cs - t)) [0..<?n] True L1
            = Some (Inr (Num w', L1\<lparr>heights := map Num hs'\<rparr>))"
    and len': "length hs' = length cs"
    and sum': "sum_list hs' - w' = sum_list cs - (sum_list cs - t)"
    and sign: "0 \<le> w'"
    and res: "\<bar>w'\<bar> \<le> 1 \<or> (\<forall>j\<in>set [0..<?n]. hs' ! j = spec_minHeight L1 j)"
    by auto
  from applyNewSize_sum [OF d c t run [unfolded L1_def] len' sum'] obtain L' where
    ans: "applyNewSize L = Some (Inr ((), L'))"
    and fr: "sections L' = sections L" "collapsedState L' = collapsedState L"
    and com: "committedHeights L' = map Num hs'"
    and s: "committedSum L' = Num (t + w')" and t': "getAvailableHeight L' = Num t"
    by blast
  have b: "spec_minHeight L' = spec_minHeight L"
    by (auto simp: spec_minHeight_def isCollapsed_def fr)
  have "\<bar>w'\<bar> \<le> 1 \<or> (0 < w' \<and> allAtMin L')"
  proof (cases "\<bar>w'\<bar> \<le> 1")
    case False
    with res have "\<forall>j<?n. hs' ! j = spec_minHeight L j" by (simp add: b1)
    then have "allAtMin L'"
      using len' len by (auto simp: allAtMin_def list_all_iff com b fr)
    with False sign show ?thesis by simp
  qed simp
  then have "sumFits L'"
    unfolding sumFits_iff s t' by auto
  with ans show ?thesis by blast
qed

lemma applyNewSize_up:
  assumes d: "distinct (map sec_id (sections L))"
    and c: "committedHeights L = map Num cs"
    and t: "getAvailableHeight L = Num t"
    and under: "sum_list cs \<le> t"
    and start: "\<forall>i<length cs. spec_minHeight L i \<le> cs ! i"
  shows "\<exists>L'. applyNewSize L = Some (Inr ((), L')) \<and> sumFits L'"
proof -
  let ?n = "length (sections L)"
  define L1 where "L1 = L\<lparr>heights := committedHeights L\<rparr>"
  have len: "length cs = ?n"
    using arg_cong [OF c, of length] by (simp add: committedHeights_def)
  have b1: "spec_minHeight L1 = spec_minHeight L" "spec_maxHeight L1 = spec_maxHeight L"
    by (auto simp: L1_def)
  have pre: "heights L1 = map Num cs" "length cs = length (sections L1)"
    using c len by (simp_all add: L1_def)
  have st: "\<forall>i\<in>set [0..<?n]. i < length cs \<and> spec_minHeight L1 i \<le> cs ! i"
    using start len by (simp add: b1)
  from under have sg: "sum_list cs - t \<le> 0" by simp
  from applyOverflow_up [OF sg pre st] obtain w' hs' where
    run: "applyOverflow (Num (sum_list cs - t)) [0..<?n] True L1
            = Some (Inr (Num w', L1\<lparr>heights := map Num hs'\<rparr>))"
    and len': "length hs' = length cs"
    and sum': "sum_list hs' - w' = sum_list cs - (sum_list cs - t)"
    and sign: "w' \<le> 0"
    and res: "\<bar>w'\<bar> \<le> 1 \<or> (\<forall>j\<in>set [0..<?n]. hs' ! j = spec_maxHeight L1 j)"
    by auto
  from applyNewSize_sum [OF d c t run [unfolded L1_def] len' sum'] obtain L' where
    ans: "applyNewSize L = Some (Inr ((), L'))"
    and fr: "sections L' = sections L" "collapsedState L' = collapsedState L"
    and com: "committedHeights L' = map Num hs'"
    and s: "committedSum L' = Num (t + w')" and t': "getAvailableHeight L' = Num t"
    by blast
  have b: "spec_maxHeight L' = spec_maxHeight L"
    by (auto simp: spec_maxHeight_def isCollapsed_def fr)
  have "\<bar>w'\<bar> \<le> 1 \<or> (w' < 0 \<and> allAtMax L')"
  proof (cases "\<bar>w'\<bar> \<le> 1")
    case False
    with res have "\<forall>j<?n. hs' ! j = spec_maxHeight L j" by (simp add: b1)
    then have "allAtMax L'"
      using len' len by (auto simp: allAtMax_def list_all_iff com b fr)
    with False sign show ?thesis by simp
  qed simp
  then have "sumFits L'"
    unfolding sumFits_iff s t' by auto
  with ans show ?thesis by blast
qed

text \<open>From committed heights that are within bounds, whichever way the sum has to go.\<close>

lemma applyNewSize_fits:
  assumes d: "distinct (map sec_id (sections L))" and a: "isFinite (availableHeight L)"
    and ok: "boundsOK L (committedHeights L)"
  shows "\<exists>L'. applyNewSize L = Some (Inr ((), L'))
    \<and> sections L' = sections L \<and> collapsedState L' = collapsedState L
    \<and> availableHeight L' = availableHeight L \<and> layoutInv L' \<and> sumFits L'"
proof -
  from ok obtain cs where c: "committedHeights L = map Num cs"
    and inb: "\<forall>i<length cs. spec_minHeight L i \<le> cs ! i \<and> cs ! i \<le> spec_maxHeight L i"
    unfolding boundsOK_iff by blast
  from a obtain t where t: "getAvailableHeight L = Num t"
    using getAvailableHeight_finite by (cases "availableHeight L") auto
  have "\<exists>L'. applyNewSize L = Some (Inr ((), L')) \<and> sumFits L'"
  proof (cases "t \<le> sum_list cs")
    case True
    from applyNewSize_down [OF d c t True] inb show ?thesis by simp
  next
    case False
    then have "sum_list cs \<le> t" by simp
    from applyNewSize_up [OF d c t this] inb show ?thesis by simp
  qed
  with applyNewSize_finite [OF d a c] show ?thesis by auto
qed

section \<open>The operations that redistribute among all the sections\<close>

lemma setAvailableHeight_fits:
  assumes "layoutInv L" and "isFinite v"
  shows "\<exists>L'. setAvailableHeight v L = Some (Inr ((), L')) \<and> layoutInv L' \<and> sumFits L'"
proof -
  let ?L = "L\<lparr>availableHeight := v\<rparr>"
  from assms have "distinct (map sec_id (sections ?L))" "isFinite (availableHeight ?L)"
    by (simp_all add: layoutInv_def)
  moreover have "boundsOK ?L (committedHeights ?L) = boundsOK L (committedHeights L)"
    by (rule trans [OF boundsOK_cong]) (simp_all add: committedHeights_def)
  with assms(1) have "boundsOK ?L (committedHeights ?L)" by (simp add: layoutInv_def)
  ultimately show ?thesis
    using applyNewSize_fits [of ?L] by (auto simp: setAvailableHeight_def)
qed

lemma update_fits:
  assumes inv: "layoutInv L" and ok: "wholeListOK (Update secs v) L"
  shows "\<exists>L'. update secs v L = Some (Inr ((), L')) \<and> layoutInv L' \<and> sumFits L'"
proof -
  define L2 where
    "L2 = L\<lparr>availableHeight := (if isFinite v then v else availableHeight L), sections := secs\<rparr>"
  from ok have ch: "(isFinite v \<and> v \<noteq> availableHeight L) \<or> secs \<noteq> sections L"
    and d: "distinct (map sec_id secs)"
    by (simp_all add: Let_def)
  have stored: "\<forall>i<length secs. \<not> truthy (js_get (sectionHeights L) (sec_id (secs ! i)))
        \<or> (case js_get (sectionHeights L) (sec_id (secs ! i)) of
              Num h \<Rightarrow> spec_minHeight L2 i \<le> h \<and> h \<le> spec_maxHeight L2 i
            | _ \<Rightarrow> False)"
    using ok unfolding L2_def wholeListOK.simps Let_def list_all_iff by auto
  from update_seeds [OF d ch] obtain m' where
    run: "update secs v L = applyNewSize (L2\<lparr>sectionHeights := m'\<rparr>)"
    and listed: "\<forall>i<length secs. m' (sec_id (secs ! i)) =
          (if truthy (js_get (sectionHeights L) (sec_id (secs ! i)))
           then sectionHeights L (sec_id (secs ! i))
           else Some (clamp (js_div (getAvailableHeight L2) (length secs))
                        (Num (spec_minHeight L2 i)) (Num (spec_maxHeight L2 i))))"
    unfolding L2_def by blast
  from inv have fin: "isFinite (availableHeight L2)"
    by (simp add: L2_def layoutInv_def)
  then obtain t where t: "getAvailableHeight L2 = Num t"
    using getAvailableHeight_finite by (cases "availableHeight L2") auto
  define L3 where "L3 = L2\<lparr>sectionHeights := m'\<rparr>"
  have s3: "sections L3 = secs" by (simp add: L3_def L2_def)
  have b3: "spec_minHeight L3 = spec_minHeight L2" "spec_maxHeight L3 = spec_maxHeight L2"
    by (auto simp: L3_def)
  have "\<forall>i<length secs. case committedHeights L3 ! i of
      Num h \<Rightarrow> spec_minHeight L3 i \<le> h \<and> h \<le> spec_maxHeight L3 i | _ \<Rightarrow> False"
  proof (intro allI impI)
    fix i assume i: "i < length secs"
    then have x: "committedHeights L3 ! i = js_get m' (sec_id (secs ! i))"
      by (simp add: committedHeights_def L3_def L2_def)
    show "case committedHeights L3 ! i of
      Num h \<Rightarrow> spec_minHeight L3 i \<le> h \<and> h \<le> spec_maxHeight L3 i | _ \<Rightarrow> False"
    proof (cases "truthy (js_get (sectionHeights L) (sec_id (secs ! i)))")
      case True
      with listed i have "m' (sec_id (secs ! i)) = sectionHeights L (sec_id (secs ! i))" by simp
      then have "committedHeights L3 ! i = js_get (sectionHeights L) (sec_id (secs ! i))"
        by (simp add: x js_get_def)
      with stored [rule_format, OF i] True show ?thesis
        by (cases "js_get (sectionHeights L) (sec_id (secs ! i))") (simp_all add: b3)
    next
      case False
      with listed i have "m' (sec_id (secs ! i))
          = Some (clamp (js_div (Num t) (length secs))
                        (Num (spec_minHeight L2 i)) (Num (spec_maxHeight L2 i)))"
        by (simp add: t)
      moreover from i have "js_div (Num t) (length secs) = Num (t / of_nat (length secs))"
        by auto
      ultimately have "committedHeights L3 ! i
          = Num (clampR (t / of_nat (length secs)) (spec_minHeight L2 i) (spec_maxHeight L2 i))"
        by (simp add: x js_get_def)
      with clampR_bounds [OF spec_bounds_order, of L2 i] show ?thesis by (simp add: b3)
    qed
  qed
  then have ok3: "boundsOK L3 (committedHeights L3)"
    by (simp add: boundsOK_def list_all_iff s3) (simp add: committedHeights_def s3)
  have "distinct (map sec_id (sections L3))" "isFinite (availableHeight L3)"
    using d fin by (simp_all add: L3_def L2_def)
  from applyNewSize_fits [OF this ok3] run show ?thesis
    by (auto simp: L3_def)
qed

text \<open>Collapsing a section lowers its bounds and, when the section is listed and was not
  collapsed, raises the height to fill by one handle height.\<close>

lemma nonCollapsed_count:
  "foldl (\<lambda>count s. count + (if P s then 0 else 1)) (a::int) xs
     = a + int (length (filter (\<lambda>s. \<not> P s) xs))"
  by (induction xs arbitrary: a) simp_all

lemma getAvailableHeight_count:
  "getAvailableHeight L =
     js_sub (availableHeight L)
       (Num (of_int (int (length (filter (\<lambda>s. \<not> isCollapsed L (sec_id s)) (sections L))) - 1)))"
  by (simp add: getAvailableHeight_def nonCollapsed_count handleHeight_def)

lemma spec_sectionHeight_mono: "m \<le> n \<Longrightarrow> spec_sectionHeight m \<le> spec_sectionHeight n"
  by (auto simp: spec_sectionHeight_def)

lemma length_filter_fewer:
  assumes "\<forall>x\<in>set xs. Q x \<longrightarrow> P x" and "x \<in> set xs" and "P x" and "\<not> Q x"
  shows "length (filter Q xs) < length (filter P xs)"
proof -
  from assms(1) have "filter Q xs = filter Q (filter P xs)"
    by (auto intro: filter_cong)
  moreover from assms(2,3) have "x \<in> set (filter P xs)" by simp
  then have "length (filter Q (filter P xs)) < length (filter P xs)"
    using assms(4) by (rule length_filter_less [where P = Q and xs = "filter P xs" and x = x])
  ultimately show ?thesis by simp
qed

lemma collapseSection_fits:
  assumes inv: "layoutInv L" and ok: "wholeListOK (CollapseSection k) L"
  shows "\<exists>L'. collapseSection k L = Some (Inr ((), L')) \<and> layoutInv L' \<and> sumFits L'"
proof -
  define L1 where "L1 = L\<lparr>collapsedState := (collapsedState L)(k \<mapsto> True)\<rparr>"
  from inv have d: "distinct (map sec_id (sections L1))" and a: "isFinite (availableHeight L1)"
    by (simp_all add: layoutInv_def L1_def)
  from inv obtain cs where c: "committedHeights L = map Num cs"
    and len: "length cs = length (sections L)"
    and inb: "\<forall>i<length cs. spec_minHeight L i \<le> cs ! i \<and> cs ! i \<le> spec_maxHeight L i"
    unfolding layoutInv_def boundsOK_iff by blast
  have c1: "committedHeights L1 = map Num cs" using c by (simp add: L1_def)
  from a obtain a0 where a0: "availableHeight L = Num a0"
    by (cases "availableHeight L") (auto simp: L1_def)
  define n where "n = length (filter (\<lambda>s. \<not> isCollapsed L (sec_id s)) (sections L))"
  define n1 where "n1 = length (filter (\<lambda>s. \<not> isCollapsed L1 (sec_id s)) (sections L))"
  have t: "getAvailableHeight L = Num (a0 - (of_int (int n - 1)))"
    by (simp add: getAvailableHeight_count a0 n_def)
  have t1: "getAvailableHeight L1 = Num (a0 - (of_int (int n1 - 1)))"
    by (simp add: getAvailableHeight_count n1_def) (simp add: L1_def a0)
  have more: "isCollapsed L x \<Longrightarrow> isCollapsed L1 x" for x
    by (simp add: isCollapsed_def L1_def)
  from ok have sum: "sum_list cs \<le> a0 - (of_int (int n - 1)) + 1"
    by (simp add: t committedSum_def c foldl_js_add)
  have lower: "\<forall>i<length cs. spec_minHeight L1 i \<le> cs ! i"
  proof (intro allI impI)
    fix i assume i: "i < length cs"
    have "spec_minHeight L1 i \<le> spec_minHeight L i"
      unfolding spec_minHeight_def using more [of "sec_id (sections L ! i)"]
      by (intro spec_sectionHeight_mono) (auto simp: L1_def)
    with inb i show "spec_minHeight L1 i \<le> cs ! i" by force
  qed
  have "\<exists>L'. applyNewSize L1 = Some (Inr ((), L')) \<and> layoutInv L' \<and> sumFits L'"
  proof (cases "sum_list cs \<le> a0 - (of_int (int n1 - 1))")
    case True
    from applyNewSize_up [OF d c1 t1 True lower] applyNewSize_finite [OF d a c1]
    show ?thesis by auto
  next
    case False
    with sum have n: "n \<le> n1" by simp
    have same: "isCollapsed L1 (sec_id s) = isCollapsed L (sec_id s)" if s: "s \<in> set (sections L)" for s
    proof (rule ccontr)
      assume "isCollapsed L1 (sec_id s) \<noteq> isCollapsed L (sec_id s)"
      with more [of "sec_id s"] have "\<not> isCollapsed L (sec_id s)" "\<not> \<not> isCollapsed L1 (sec_id s)"
        by auto
      with s more have "n1 < n"
        unfolding n_def n1_def
        by (intro length_filter_fewer [where x = s and xs = "sections L"
              and P = "\<lambda>s. \<not> isCollapsed L (sec_id s)"
              and Q = "\<lambda>s. \<not> isCollapsed L1 (sec_id s)"]) auto
      with n show False by simp
    qed
    have b: "spec_minHeight L1 i = spec_minHeight L i" "spec_maxHeight L1 i = spec_maxHeight L i"
      if "i < length (sections L)" for i
      using same [of "sections L ! i"] that
      by (simp_all add: spec_minHeight_def spec_maxHeight_def) (simp_all add: L1_def)
    have "boundsOK L1 (committedHeights L1)"
      unfolding boundsOK_iff using c1 len inb b
      by (intro exI [of _ cs]) (simp add: L1_def)
    from applyNewSize_fits [OF d a this] show ?thesis by auto
  qed
  then show ?thesis by (simp add: collapseSection_def L1_def)
qed

lemma layoutInv_bounds:
  assumes "layoutInv L" and "i < length (sections L)"
  shows "\<exists>h. committedHeights L ! i = Num h \<and> js_get (sectionHeights L) (sec_id (sections L ! i)) = Num h
    \<and> spec_minHeight L i \<le> h \<and> h \<le> spec_maxHeight L i"
proof -
  from assms(1) obtain cs where c: "committedHeights L = map Num cs"
    and len: "length cs = length (sections L)"
    and inb: "\<forall>i<length cs. spec_minHeight L i \<le> cs ! i \<and> cs ! i \<le> spec_maxHeight L i"
    unfolding layoutInv_def boundsOK_iff by blast
  from assms(2) have "committedHeights L ! i = js_get (sectionHeights L) (sec_id (sections L ! i))"
    by (simp add: committedHeights_def)
  moreover from c len assms(2) have "committedHeights L ! i = Num (cs ! i)" by simp
  moreover from inb len assms(2)
  have "spec_minHeight L i \<le> cs ! i \<and> cs ! i \<le> spec_maxHeight L i" by simp
  ultimately show ?thesis by (intro exI [of _ "cs ! i"]) simp
qed

section \<open>The invariants of the specification\<close>

text \<open>
  C2 (as amended): a new layout is in good order, and every operation of the public
  interface whose numbers are finite (for \<open>update\<close>: whose section ids are distinct, and
  whose sections have a finite or falsy stored height) takes a layout in good order to a
  layout in good order, whether it returns or throws. In a layout in good order the
  committed height of every section is a finite number between the minimum and the maximum
  of the section, which are the bounds that \<open>getMinHeight\<close> and \<open>getMaxHeight\<close> compute.
\<close>

theorem C2_committed_heights_within_bounds:
  assumes "layoutInv L" and "opOK op L"
  shows "layoutInv (newLayout initialSizes collapsed)
    \<and> (\<exists>r. perform op L = Some r \<and> layoutInv (state_of r)
          \<and> (\<forall>i<length (sections (state_of r)).
                \<exists>h. js_get (sectionHeights (state_of r)) (sec_id (sections (state_of r) ! i)) = Num h
                  \<and> spec_minHeight (state_of r) i \<le> h \<and> h \<le> spec_maxHeight (state_of r) i
                  \<and> getMinHeight (state_of r) (int i) = Inr (Num (spec_minHeight (state_of r) i))
                  \<and> getMaxHeight (state_of r) (int i) = Inr (Num (spec_maxHeight (state_of r) i))))"
proof -
  from perform_inv [OF assms] obtain r where
    r: "perform op L = Some r" and inv: "layoutInv (state_of r)" by blast
  have "\<forall>i<length (sections (state_of r)).
      \<exists>h. js_get (sectionHeights (state_of r)) (sec_id (sections (state_of r) ! i)) = Num h
        \<and> spec_minHeight (state_of r) i \<le> h \<and> h \<le> spec_maxHeight (state_of r) i
        \<and> getMinHeight (state_of r) (int i) = Inr (Num (spec_minHeight (state_of r) i))
        \<and> getMaxHeight (state_of r) (int i) = Inr (Num (spec_maxHeight (state_of r) i))"
  proof (intro allI impI)
    fix i assume i: "i < length (sections (state_of r))"
    from layoutInv_bounds [OF inv i] getMinHeight_spec [of "int i" "state_of r"]
      getMaxHeight_spec [of "int i" "state_of r"] i
    show "\<exists>h. js_get (sectionHeights (state_of r)) (sec_id (sections (state_of r) ! i)) = Num h
        \<and> spec_minHeight (state_of r) i \<le> h \<and> h \<le> spec_maxHeight (state_of r) i
        \<and> getMinHeight (state_of r) (int i) = Inr (Num (spec_minHeight (state_of r) i))
        \<and> getMaxHeight (state_of r) (int i) = Inr (Num (spec_maxHeight (state_of r) i))"
      by auto
  qed
  with r inv newLayout_inv show ?thesis by blast
qed

text \<open>
  C1 (as amended): on a layout in good order, an \<open>update\<close> that changes the available
  height or the section list (with distinct ids, and with the stored height of every listed
  section falsy or within the bounds the section has in the updated layout),
  \<open>setAvailableHeight\<close> with a finite height, and \<open>collapseSection\<close> on a layout whose
  committed sum is not more than 1 above the height to fill, return and leave a layout in
  good order in which the sum of the committed heights is within 1 of
  \<open>availableHeight - (nonCollapsedSectionCount - 1) * handleHeight\<close>, or is above it with
  every section at its minimum height, or is below it with every section at its maximum
  height. The bound 1 is that of the exact arithmetic of this model, to which the doubles of
  the source add their rounding error; the heights are within bounds throughout, so that no
  large number is cancelled.
\<close>

theorem C1_sum_after_whole_list_operation:
  assumes "layoutInv L" and "wholeListOK op L"
  shows "\<exists>L'. perform op L = Some (Inr ((), L')) \<and> layoutInv L'
    \<and> (\<exists>c t. committedSum L' = Num c \<and> getAvailableHeight L' = Num t
          \<and> (\<bar>c - t\<bar> \<le> 1 \<or> (t < c \<and> allAtMin L') \<or> (c < t \<and> allAtMax L')))"
proof (cases op)
  case (Update secs v)
  with update_fits [of L secs v] assms show ?thesis by (simp add: sumFits_iff)
next
  case (SetAvailableHeight v)
  with setAvailableHeight_fits [of L v] assms show ?thesis by (simp add: sumFits_iff)
next
  case (CollapseSection k)
  with collapseSection_fits [of L k] assms show ?thesis by (simp add: sumFits_iff)
qed (use assms in simp_all)


lemma exampleLayout_inv: "layoutInv exampleLayout"
  by code_simp

lemma exampleLayout_sections:
  "sections exampleLayout = exampleSections"
  "length exampleSections = 2"
  "exampleSections ! 0 = \<lparr>sec_id = ''A'', sec_count = 3\<rparr>"
  "exampleSections ! Suc 0 = \<lparr>sec_id = ''B'', sec_count = 5\<rparr>"
  by (simp_all add: exampleLayout_def exampleSections_def)

theorem C2_committed_heights_within_bounds_witness:
  "layoutInv exampleLayout
   \<and> opOK (SetHeight (openHandle exampleLayout ''A'') (Num 300)) exampleLayout
   \<and> layoutInv (newLayout Map.empty Map.empty)
   \<and> (\<exists>r. perform (SetHeight (openHandle exampleLayout ''A'') (Num 300)) exampleLayout = Some r
         \<and> layoutInv (state_of r)
         \<and> (\<exists>h. js_get (sectionHeights (state_of r)) ''A'' = Num h
               \<and> spec_minHeight (state_of r) 0 \<le> h \<and> h \<le> spec_maxHeight (state_of r) 0)
         \<and> (\<exists>h. js_get (sectionHeights (state_of r)) ''B'' = Num h
               \<and> spec_minHeight (state_of r) 1 \<le> h \<and> h \<le> spec_maxHeight (state_of r) 1))"
proof -
  let ?op = "SetHeight (openHandle exampleLayout ''A'') (Num 300)"
  have ok: "opOK ?op exampleLayout" by code_simp
  have e: "(case perform ?op exampleLayout of
      Some r \<Rightarrow> sections (state_of r) = exampleSections | None \<Rightarrow> False)"
    by code_simp
  from C2_committed_heights_within_bounds [OF exampleLayout_inv ok, of Map.empty Map.empty]
  obtain r where n: "layoutInv (newLayout Map.empty Map.empty)"
    and r: "perform ?op exampleLayout = Some r" "layoutInv (state_of r)"
    and b: "\<forall>i<length (sections (state_of r)).
       \<exists>h. js_get (sectionHeights (state_of r)) (sec_id (sections (state_of r) ! i)) = Num h
         \<and> spec_minHeight (state_of r) i \<le> h \<and> h \<le> spec_maxHeight (state_of r) i
         \<and> getMinHeight (state_of r) (int i) = Inr (Num (spec_minHeight (state_of r) i))
         \<and> getMaxHeight (state_of r) (int i) = Inr (Num (spec_maxHeight (state_of r) i))"
    by blast
  from e r have s: "sections (state_of r) = exampleSections" by simp
  from b [rule_format, of 0] s
  have "\<exists>h. js_get (sectionHeights (state_of r)) ''A'' = Num h
        \<and> spec_minHeight (state_of r) 0 \<le> h \<and> h \<le> spec_maxHeight (state_of r) 0"
    by (auto simp: exampleLayout_sections)
  moreover from b [rule_format, of 1] s
  have "\<exists>h. js_get (sectionHeights (state_of r)) ''B'' = Num h
        \<and> spec_minHeight (state_of r) 1 \<le> h \<and> h \<le> spec_maxHeight (state_of r) 1"
    by (auto simp: exampleLayout_sections)
  ultimately show ?thesis using exampleLayout_inv ok n r by blast
qed

theorem C2_counterexample:
  "layoutInv exampleLayout
   \<and> (case setHeight (openHandle exampleLayout ''A'') NaN exampleLayout of
        Some (Inr (hdl, L1)) \<Rightarrow>
          committedHeights (snd (finish hdl L1)) = [NaN, Num (399 / 2)]
          \<and> \<not> layoutInv (snd (finish hdl L1))
      | _ \<Rightarrow> False)
   \<and> (case update exampleSections (Num 400) (newLayout [''A'' \<mapsto> PInf] Map.empty) of
        Some (Inr (_, L')) \<Rightarrow> committedHeights L' = [NaN, Num 74] \<and> \<not> layoutInv L'
      | _ \<Rightarrow> False)"
  by code_simp

theorem C1_sum_after_whole_list_operation_witness:
  "layoutInv exampleLayout
   \<and> wholeListOK (SetAvailableHeight (Num 500)) exampleLayout
   \<and> wholeListOK (CollapseSection ''A'') exampleLayout
   \<and> wholeListOK (Update (exampleSections @ [\<lparr>sec_id = ''C'', sec_count = 2\<rparr>]) (Num 400))
        exampleLayout
   \<and> (\<exists>L'. setAvailableHeight (Num 500) exampleLayout = Some (Inr ((), L')) \<and> layoutInv L'
         \<and> (\<exists>c t. committedSum L' = Num c \<and> getAvailableHeight L' = Num t
               \<and> (\<bar>c - t\<bar> \<le> 1 \<or> (t < c \<and> allAtMin L') \<or> (c < t \<and> allAtMax L'))))
   \<and> (\<exists>L'. collapseSection ''A'' exampleLayout = Some (Inr ((), L')) \<and> layoutInv L'
         \<and> (\<exists>c t. committedSum L' = Num c \<and> getAvailableHeight L' = Num t
               \<and> (\<bar>c - t\<bar> \<le> 1 \<or> (t < c \<and> allAtMin L') \<or> (c < t \<and> allAtMax L'))))
   \<and> (\<exists>L'. update (exampleSections @ [\<lparr>sec_id = ''C'', sec_count = 2\<rparr>]) (Num 400) exampleLayout
           = Some (Inr ((), L')) \<and> layoutInv L'
         \<and> (\<exists>c t. committedSum L' = Num c \<and> getAvailableHeight L' = Num t
               \<and> (\<bar>c - t\<bar> \<le> 1 \<or> (t < c \<and> allAtMin L') \<or> (c < t \<and> allAtMax L'))))"
proof -
  have ok1: "wholeListOK (SetAvailableHeight (Num 500)) exampleLayout" by simp
  have ok2: "wholeListOK (CollapseSection ''A'') exampleLayout" by code_simp
  have ok3: "wholeListOK (Update (exampleSections @ [\<lparr>sec_id = ''C'', sec_count = 2\<rparr>]) (Num 400))
        exampleLayout" by code_simp
  from C1_sum_after_whole_list_operation [OF exampleLayout_inv ok1]
    C1_sum_after_whole_list_operation [OF exampleLayout_inv ok2]
    C1_sum_after_whole_list_operation [OF exampleLayout_inv ok3]
    exampleLayout_inv ok1 ok2 ok3
  show ?thesis by simp
qed

theorem C1_counterexample:
  "(case update [\<lparr>sec_id = ''A'', sec_count = 1\<rparr>, \<lparr>sec_id = ''B'', sec_count = 1\<rparr>] (Num 100)
           (newLayout Map.empty Map.empty) of
      Some (Inr (_, L')) \<Rightarrow>
        isFinite (availableHeight L')
        \<and> committedHeights L' = [Num 74, Num 74]
        \<and> committedSum L' = Num 148 \<and> getAvailableHeight L' = Num 99
    | _ \<Rightarrow> False)
   \<and> (case setHeight (openHandle exampleLayout ''A'') (Num (801 / 4)) exampleLayout of
        Some (Inr (hdl1, L1)) \<Rightarrow>
          (case setHeight (openHandle (snd (finish hdl1 L1)) ''A'') (Num 201) (snd (finish hdl1 L1)) of
             Some (Inr (hdl2, L2)) \<Rightarrow>
               committedHeights (snd (finish hdl2 L2)) = [Num 201, Num (399 / 2)]
               \<and> committedSum (snd (finish hdl2 L2)) = Num (801 / 2)
               \<and> getAvailableHeight (snd (finish hdl2 L2)) = Num 399
           | _ \<Rightarrow> False)
      | _ \<Rightarrow> False)
   \<and> (case update exampleSections (Num 400)
             (newLayout [''A'' \<mapsto> Num 200000, ''B'' \<mapsto> Num 10] Map.empty) of
        Some (Inr (_, L1)) \<Rightarrow>
          committedHeights L1 = [Num 100000, Num 74]
          \<and> committedSum L1 = Num 100074 \<and> getAvailableHeight L1 = Num 399
          \<and> spec_minHeight L1 0 = 74
          \<and> (case collapseSection ''A'' L1 of
               Some (Inr (_, L2)) \<Rightarrow>
                 committedHeights L2 = [Num 36, Num 74]
                 \<and> committedSum L2 = Num 110 \<and> getAvailableHeight L2 = Num 400
                 \<and> spec_maxHeight L2 1 = 100000
             | _ \<Rightarrow> False)
      | _ \<Rightarrow> False)"
  by code_simp



end
